theory Spec2Isabelle
  imports Main "HOL-Library.AList" "HOL-Library.Sublist"
begin

section \<open>The flashcard data fixer (scripts/fix-flashcards.ts)\<close>

text \<open>
  The script reads one JSON document, repairs every card in memory (default tags for a
  card without tags, HTML tags removed from question and answer), puts the cards back in
  their groups and writes the document once. The model follows the script function by
  function. What \<open>JSON.parse\<close> returns is a value of the datatype \<open>json\<close>; JavaScript's
  \<open>undefined\<close> is \<open>None\<close> of \<open>json option\<close>; an exception is \<open>Inl\<close> of a sum.

  Two conventions fix what the types denote. A string is the list of its UTF-16 code
  units, one \<open>char\<close> each, so the model covers code units below 256 (ASCII and Latin-1).
  A number is an integer (no fraction, magnitude below \<open>2^53\<close>).
\<close>

subsection \<open>Values\<close>

datatype json =
    JNull
  | JBool bool
  | JNum int
  | JStr string
  | JArr "json list"
  | JObj "(string \<times> json) list"

datatype error = TypeError | SyntaxError | ReadError | Unmodelled

text \<open>
  \<open>TypeError\<close>, \<open>SyntaxError\<close> and \<open>ReadError\<close> are exceptions of the script.
  \<open>Unmodelled\<close> is not: it marks the one input shape the model does not follow (see
  \<open>chapter_length\<close>).
\<close>

fun truthy :: "json option \<Rightarrow> bool" where
  "truthy None = False"
| "truthy (Some JNull) = False"
| "truthy (Some (JBool b)) = b"
| "truthy (Some (JNum n)) = (n \<noteq> 0)"
| "truthy (Some (JStr s)) = (s \<noteq> [])"
| "truthy (Some (JArr xs)) = True"
| "truthy (Some (JObj kvs)) = True"

text \<open>
  \<open>get v k\<close> is the property read \<open>v.k\<close> on a value that is not \<open>null\<close>, for the names
  the script reads (none of them is a property of a prototype): an own key of an object,
  \<open>undefined\<close> on everything else. \<open>opt_prop\<close> is the optional chain \<open>v?.k\<close>.
\<close>

fun get :: "json \<Rightarrow> string \<Rightarrow> json option" where
  "get (JObj kvs) k = map_of kvs k"
| "get v k = None"

fun opt_prop :: "json option \<Rightarrow> string \<Rightarrow> json option" where
  "opt_prop None k = None"
| "opt_prop (Some JNull) k = None"
| "opt_prop (Some v) k = get v k"

text \<open>\<open>v.length\<close> on a value that is not \<open>null\<close>.\<close>

fun length_prop :: "json \<Rightarrow> json option" where
  "length_prop (JArr xs) = Some (JNum (int (length xs)))"
| "length_prop (JStr s) = Some (JNum (int (length s)))"
| "length_prop (JObj kvs) = map_of kvs ''length''"
| "length_prop v = None"

text \<open>
  The assignment \<open>v.k = x\<close> on an object replaces the key where it stands or appends it.
  On an array the new property is not an index, so \<open>JSON.stringify\<close> never prints it:
  the document is unchanged. The callers raise \<open>TypeError\<close> on every other receiver.
\<close>

fun set_prop :: "json \<Rightarrow> string \<Rightarrow> json \<Rightarrow> json" where
  "set_prop (JObj kvs) k x = JObj (AList.update k x kvs)"
| "set_prop v k x = v"

subsection \<open>Strings\<close>

definition digit_char :: "nat \<Rightarrow> char" where
  "digit_char d = ''0123456789'' ! d"

function show_nat :: "nat \<Rightarrow> string" where
  "show_nat n = (if n < 10 then [digit_char n] else show_nat (n div 10) @ [digit_char (n mod 10)])"
  by pat_completeness auto
termination
  by (relation "measure id") auto

definition show_int :: "int \<Rightarrow> string" where
  "show_int i = (if i < 0 then CHR ''-'' # show_nat (nat (- i)) else show_nat (nat i))"

text \<open>
  String conversion, as a template literal does it. An array joins its elements with
  commas, \<open>null\<close> printing as nothing; an object prints as \<open>[object Object]\<close> unless an own
  key \<open>toString\<close> hides the inherited method, which leaves nothing callable that returns
  a primitive.
\<close>

fun to_str :: "json \<Rightarrow> error + string"
  and join_strs :: "json list \<Rightarrow> error + string" where
  "to_str JNull = Inr ''null''"
| "to_str (JBool b) = Inr (if b then ''true'' else ''false'')"
| "to_str (JNum n) = Inr (show_int n)"
| "to_str (JStr s) = Inr s"
| "to_str (JArr xs) = join_strs xs"
| "to_str (JObj kvs) =
     (if map_of kvs ''toString'' = None then Inr ''[object Object]'' else Inl TypeError)"
| "join_strs [] = Inr ''''"
| "join_strs (x # xs) =
     (case (if x = JNull then Inr '''' else to_str x) of
        Inl e \<Rightarrow> Inl e
      | Inr s \<Rightarrow>
          (if xs = [] then Inr s
           else (case join_strs xs of Inl e \<Rightarrow> Inl e | Inr t \<Rightarrow> Inr (s @ '','' @ t))))"

fun template :: "json option \<Rightarrow> error + string" where
  "template None = Inr ''undefined''"
| "template (Some v) = to_str v"

definition lower_char :: "char \<Rightarrow> char" where
  "lower_char c =
     (let n = (of_char c :: nat)
      in if (65 \<le> n \<and> n \<le> 90) \<or> (192 \<le> n \<and> n \<le> 222 \<and> n \<noteq> 215)
         then char_of (n + 32) else c)"

definition toLowerCase :: "string \<Rightarrow> string" where
  "toLowerCase s = map lower_char s"

text \<open>The class \<open>\w\<close> of a regular expression without flags: ASCII letters, digits, underscore.\<close>

definition is_word_char :: "char \<Rightarrow> bool" where
  "is_word_char c =
     (let n = (of_char c :: nat)
      in (48 \<le> n \<and> n \<le> 57) \<or> (65 \<le> n \<and> n \<le> 90) \<or> n = 95 \<or> (97 \<le> n \<and> n \<le> 122))"

text \<open>
  \<open>keyword_here prev kw s\<close>: the pattern \<open>\bkw\b\<close> matches at the head of \<open>s\<close>, where
  \<open>prev\<close> says whether the character in front of \<open>s\<close> is a word character. \<open>\b\<close> holds
  where exactly one side is a word character, the ends of the text counting as none.
\<close>

definition keyword_here :: "bool \<Rightarrow> string \<Rightarrow> string \<Rightarrow> bool" where
  "keyword_here prev kw s =
     (kw \<noteq> [] \<and> prefix kw s \<and> prev \<noteq> is_word_char (hd kw) \<and>
      is_word_char (last kw) \<noteq>
        (case drop (length kw) s of [] \<Rightarrow> False | c # cs \<Rightarrow> is_word_char c))"

text \<open>
  \<open>content.match(/\b(k1|k2|...)\b/)\<close> is truthy when some alternative matches at some
  position; the matcher backtracks over every alternative and every position.
\<close>

fun regex_search :: "bool \<Rightarrow> string list \<Rightarrow> string \<Rightarrow> bool" where
  "regex_search prev kws [] = False"
| "regex_search prev kws (c # cs) =
     (list_ex (\<lambda>kw. keyword_here prev kw (c # cs)) kws \<or>
      regex_search (is_word_char c) kws cs)"

definition matches_topic :: "string list \<Rightarrow> string \<Rightarrow> bool" where
  "matches_topic kws content = regex_search False kws content"

subsection \<open>stripHtmlTags\<close>

text \<open>
  \<open>match_tag s\<close> tries \<open>/<[^>]+>/\<close> at the head of \<open>s\<close> and returns the text after the
  match. \<open>[^>]+\<close> is greedy: it takes every character up to the next \<open>>\<close>, or up to the
  end. A shorter run is followed by a character that is not \<open>>\<close>, so backtracking finds
  nothing more.
\<close>

definition match_tag :: "string \<Rightarrow> string option" where
  "match_tag s =
     (case s of
        [] \<Rightarrow> None
      | c # cs \<Rightarrow>
          if c = CHR ''<'' then
            (let body = takeWhile (\<lambda>x. x \<noteq> CHR ''>'') cs;
                 rest = dropWhile (\<lambda>x. x \<noteq> CHR ''>'') cs
             in if body \<noteq> [] \<and> rest \<noteq> [] then Some (tl rest) else None)
          else None)"

text \<open>
  \<open>text.replace(/<[^>]+>/g, '')\<close>: the text is scanned from the left; a match is dropped
  and the scan goes on behind it, a character where nothing matches is kept.
\<close>

function stripHtmlTags :: "string \<Rightarrow> string" where
  "stripHtmlTags [] = []"
| "stripHtmlTags (c # cs) =
     (case match_tag (c # cs) of
        Some rest \<Rightarrow> stripHtmlTags rest
      | None \<Rightarrow> c # stripHtmlTags cs)"
  by pat_completeness auto
termination
proof (relation "measure length")
  show "wf (measure length)"
    by simp
next
  fix c :: char and cs rest
  assume "match_tag (c # cs) = Some rest"
  then have "rest = tl (dropWhile (\<lambda>x. x \<noteq> CHR ''>'') cs)"
    by (auto simp: match_tag_def Let_def split: if_splits)
  moreover have "length (dropWhile (\<lambda>x. x \<noteq> CHR ''>'') cs) \<le> length cs"
    by (rule length_dropWhile_le)
  ultimately show "(rest, c # cs) \<in> measure length"
    by simp
next
  fix c :: char and cs
  show "(cs, c # cs) \<in> measure length"
    by simp
qed

subsection \<open>generateDefaultTags\<close>

text \<open>The keyword patterns of the script with the tag each one pushes, in the script's order.\<close>

definition topics :: "(string list \<times> string) list" where
  "topics =
    [([''airway'', ''breathing'', ''ventilation'', ''oxygen'', ''respiratory''], ''airway''),
     ([''cardiac'', ''heart'', ''pulse'', ''circulation'', ''blood pressure'', ''cpr''], ''cardiac''),
     ([''trauma'', ''fracture'', ''injury'', ''bleeding'', ''wound'', ''shock''], ''trauma''),
     ([''medical'', ''illness'', ''disease'', ''condition'', ''symptom''], ''medical''),
     ([''pediatric'', ''child'', ''infant'', ''baby''], ''pediatric''),
     ([''obstetric'', ''pregnancy'', ''birth'', ''labor'', ''delivery''], ''obstetric''),
     ([''geriatric'', ''elderly'', ''older adult''], ''geriatric''),
     ([''assessment'', ''evaluate'', ''examine'', ''check'', ''vital signs''], ''assessment''),
     ([''history'', ''sample'', ''opqrst'', ''chief complaint''], ''patient-history''),
     ([''treatment'', ''care'', ''intervention'', ''procedure''], ''treatment''),
     ([''medication'', ''drug'', ''epinephrine'', ''aspirin'', ''nitroglycerin''], ''medication''),
     ([''splint'', ''immobilization'', ''bandage'', ''dressing''], ''immobilization''),
     ([''scene'', ''safety'', ''hazard'', ''danger'', ''bsi''], ''scene-safety''),
     ([''communication'', ''report'', ''radio'', ''documentation''], ''communication''),
     ([''transport'', ''ambulance'', ''move'', ''transfer''], ''transport''),
     ([''equipment'', ''device'', ''tool'', ''apparatus''], ''equipment''),
     ([''consent'', ''refusal'', ''legal'', ''liability'', ''negligence''], ''legal''),
     ([''protocol'', ''standard'', ''scope'', ''guideline''], ''protocol'')]"

definition topic_tags :: "string \<Rightarrow> json list" where
  "topic_tags content =
     map (\<lambda>kt. JStr (snd kt)) (filter (\<lambda>kt. matches_topic (fst kt) content) topics)"

text \<open>
  \<open>Array.from(new Set(tags))\<close>: a set keeps the first occurrence of each value, in the
  order of insertion. At most one element is not a string (the card's \<open>type\<close>), so
  equality of values is the set's equality.
\<close>

definition dedup :: "'a list \<Rightarrow> 'a list" where
  "dedup xs = fold (\<lambda>x acc. if x \<in> set acc then acc else acc @ [x]) xs []"

definition chapter_tag :: "json \<Rightarrow> error + json list" where
  "chapter_tag crd =
     (if truthy (get crd ''chapterNumber'') then
        (case template (get crd ''chapterNumber'') of
           Inl e \<Rightarrow> Inl e
         | Inr n \<Rightarrow> Inr [JStr (''chapter-'' @ n)])
      else Inr [])"

definition type_tag :: "json \<Rightarrow> json list" where
  "type_tag crd =
     (if truthy (get crd ''type'') then
        (case get crd ''type'' of Some t \<Rightarrow> [t] | None \<Rightarrow> [])
      else [])"

text \<open>\<open>card.difficulty.toLowerCase()\<close> is a method of strings only.\<close>

definition difficulty_tag :: "json \<Rightarrow> error + json list" where
  "difficulty_tag crd =
     (if truthy (get crd ''difficulty'') then
        (case get crd ''difficulty'' of
           Some (JStr d) \<Rightarrow> Inr [JStr (toLowerCase d)]
         | _ \<Rightarrow> Inl TypeError)
      else Inr [])"

definition card_content :: "json \<Rightarrow> error + string" where
  "card_content crd =
     (case template (get crd ''question'') of
        Inl e \<Rightarrow> Inl e
      | Inr q \<Rightarrow>
          (case template (get crd ''answer'') of
             Inl e \<Rightarrow> Inl e
           | Inr a \<Rightarrow> Inr (toLowerCase (q @ '' '' @ a))))"

definition add_generic :: "json list \<Rightarrow> json list" where
  "add_generic tags =
     (if length tags = 3 then tags @ [JStr ''emt-basic'', JStr ''core-knowledge''] else tags)"

definition generateDefaultTags :: "json \<Rightarrow> error + json list" where
  "generateDefaultTags crd =
     (case chapter_tag crd of
        Inl e \<Rightarrow> Inl e
      | Inr t1 \<Rightarrow>
          (case difficulty_tag crd of
             Inl e \<Rightarrow> Inl e
           | Inr t3 \<Rightarrow>
               (case card_content crd of
                  Inl e \<Rightarrow> Inl e
                | Inr content \<Rightarrow>
                    Inr (dedup (add_generic (t1 @ type_tag crd @ t3 @ topic_tags content))))))"

subsection \<open>The loop over the cards\<close>

record counters =
  fixedTagsCount :: nat
  fixedHtmlCount :: nat
  totalChanges :: nat

text \<open>The test \<open>!card.tags || card.tags.length === 0\<close>.\<close>

definition tags_missing :: "json \<Rightarrow> bool" where
  "tags_missing crd =
     (case get crd ''tags'' of
        None \<Rightarrow> True
      | Some t \<Rightarrow> if truthy (Some t) then length_prop t = Some (JNum 0) else True)"

definition bump :: "bool \<Rightarrow> nat \<Rightarrow> nat" where
  "bump b n = (if b then Suc n else n)"

text \<open>The first step of the loop body: default tags for a card whose tags are missing or empty.\<close>

definition backfill :: "json \<Rightarrow> error + (json \<times> bool)" where
  "backfill crd =
     (if tags_missing crd then
        (case generateDefaultTags crd of
           Inl e \<Rightarrow> Inl e
         | Inr ts \<Rightarrow> Inr (set_prop crd ''tags'' (JArr ts), True))
      else Inr (crd, False))"

text \<open>
  The second and third step, for \<open>question\<close> and for \<open>answer\<close>: the field is stripped
  and assigned when the stripped text differs. \<open>stripHtmlTags\<close> calls \<open>replace\<close> on its
  argument, which only a string has. When the text differs the script first prints a
  notice with \<open>${card.id}\<close> in it, and that string conversion can throw.
\<close>

definition strip_field :: "string \<Rightarrow> json \<Rightarrow> error + (json \<times> bool)" where
  "strip_field k crd =
     (case get crd k of
        Some (JStr t) \<Rightarrow>
          (let clean = stripHtmlTags t
           in if clean \<noteq> t then
                (case template (get crd ''id'') of
                   Inl e \<Rightarrow> Inl e
                 | Inr i \<Rightarrow> Inr (set_prop crd k (JStr clean), True))
              else Inr (crd, False))
      | _ \<Rightarrow> Inl TypeError)"

text \<open>
  The body of the loop for one card. A card that is not an object ends in a \<open>TypeError\<close>:
  \<open>null.tags\<close> throws, and on a primitive or an array \<open>card.question\<close> is \<open>undefined\<close>,
  which has no \<open>replace\<close>.
\<close>

definition fixCard :: "json \<Rightarrow> counters \<Rightarrow> error + (json \<times> counters)" where
  "fixCard crd cnt =
     (case crd of
        JObj kvs \<Rightarrow>
          (case backfill crd of
             Inl e \<Rightarrow> Inl e
           | Inr (c1, tagged) \<Rightarrow>
               (case strip_field ''question'' c1 of
                  Inl e \<Rightarrow> Inl e
                | Inr (c2, qch) \<Rightarrow>
                    (case strip_field ''answer'' c2 of
                       Inl e \<Rightarrow> Inl e
                     | Inr (c3, ach) \<Rightarrow>
                         Inr (c3,
                           \<lparr>fixedTagsCount = bump tagged (fixedTagsCount cnt),
                            fixedHtmlCount = bump ach (bump qch (fixedHtmlCount cnt)),
                            totalChanges = bump (tagged \<or> qch \<or> ach) (totalChanges cnt)\<rparr>))))
      | _ \<Rightarrow> Inl TypeError)"

fun fixCards :: "json list \<Rightarrow> counters \<Rightarrow> error + (json list \<times> counters)" where
  "fixCards [] cnt = Inr ([], cnt)"
| "fixCards (crd # cards) cnt =
     (case fixCard crd cnt of
        Inl e \<Rightarrow> Inl e
      | Inr (crd', cnt') \<Rightarrow>
          (case fixCards cards cnt' of
             Inl e \<Rightarrow> Inl e
           | Inr (cards', cnt'') \<Rightarrow> Inr (crd' # cards', cnt'')))"

subsection \<open>Taking the cards out of the document\<close>

text \<open>
  \<open>jsonData.data?.mainFlashcards || []\<close>, then spread into the list of all cards. Only an
  array and a string can be spread; a string gives its characters.
\<close>

definition or_empty :: "json option \<Rightarrow> json" where
  "or_empty v = (case v of None \<Rightarrow> JArr [] | Some x \<Rightarrow> if truthy (Some x) then x else JArr [])"

fun spread :: "json \<Rightarrow> error + json list" where
  "spread (JArr xs) = Inr xs"
| "spread (JStr s) = Inr (map (\<lambda>c. JStr [c]) s)"
| "spread v = Inl TypeError"

text \<open>
  The loop over \<open>chapterCollections\<close>: \<open>collection.flashcards\<close> throws on \<open>null\<close>; the
  cards are pushed when the property is an array and skipped otherwise.
\<close>

fun collect :: "json list \<Rightarrow> error + json list" where
  "collect [] = Inr []"
| "collect (c # cs) =
     (if c = JNull then Inl TypeError
      else (case collect cs of
              Inl e \<Rightarrow> Inl e
            | Inr rest \<Rightarrow>
                Inr ((case get c ''flashcards'' of Some (JArr fs) \<Rightarrow> fs | _ \<Rightarrow> []) @ rest)))"

definition chapterCards_of :: "json option \<Rightarrow> error + json list" where
  "chapterCards_of dat =
     (case opt_prop dat ''chapterCollections'' of
        Some (JArr colls) \<Rightarrow> collect colls
      | _ \<Rightarrow> Inr [])"

subsection \<open>Putting the cards back\<close>

text \<open>A JavaScript number as the rebuild loop meets it: an integer, or \<open>NaN\<close>.\<close>

datatype jsnum = Num int | NaN

fun js_add :: "jsnum \<Rightarrow> jsnum \<Rightarrow> jsnum" where
  "js_add (Num a) (Num b) = Num (a + b)"
| "js_add x y = NaN"

text \<open>
  \<open>xs.slice(s, e)\<close>: \<open>NaN\<close> counts as 0, a negative index counts from the end, and both
  ends are clamped to the array.
\<close>

definition rel_index :: "nat \<Rightarrow> jsnum \<Rightarrow> nat" where
  "rel_index len x =
     (case x of NaN \<Rightarrow> 0 | Num i \<Rightarrow> if i < 0 then nat (int len + i) else min (nat i) len)"

definition js_slice :: "'a list \<Rightarrow> jsnum \<Rightarrow> jsnum \<Rightarrow> 'a list" where
  "js_slice xs s e =
     (let k = rel_index (length xs) s; f = rel_index (length xs) e in take (f - k) (drop k xs))"

text \<open>
  \<open>collection.flashcards.length\<close> as the number the loop adds to \<open>chapterIndex\<close>. The read
  throws when \<open>flashcards\<close> is \<open>undefined\<close> or \<open>null\<close> (and when the collection is \<open>null\<close>).
  An absent \<open>length\<close> adds as \<open>NaN\<close>, \<open>null\<close> and \<open>false\<close> add as 0, \<open>true\<close> adds as 1.
  An object whose own \<open>length\<close> is a string, an array or an object turns the sum into a
  string concatenation: this is the shape the model leaves out.
\<close>

definition chapter_length :: "json \<Rightarrow> error + jsnum" where
  "chapter_length collection =
     (case get collection ''flashcards'' of
        None \<Rightarrow> Inl TypeError
      | Some JNull \<Rightarrow> Inl TypeError
      | Some f \<Rightarrow>
          (case length_prop f of
             None \<Rightarrow> Inr NaN
           | Some (JNum n) \<Rightarrow> Inr (Num n)
           | Some JNull \<Rightarrow> Inr (Num 0)
           | Some (JBool b) \<Rightarrow> Inr (Num (if b then 1 else 0))
           | Some other \<Rightarrow> Inl Unmodelled))"



fun rebuild :: "json list \<Rightarrow> jsnum \<Rightarrow> json list \<Rightarrow> error + json list" where
  "rebuild cards chapterIndex [] = Inr []"
| "rebuild cards chapterIndex (collection # rest) =
     (case chapter_length collection of
        Inl e \<Rightarrow> Inl e
      | Inr chapterLength \<Rightarrow>
          (case rebuild cards (js_add chapterIndex chapterLength) rest of
             Inl e \<Rightarrow> Inl e
           | Inr rest' \<Rightarrow>
               Inr (set_prop collection ''flashcards''
                      (JArr (js_slice cards chapterIndex (js_add chapterIndex chapterLength)))
                    # rest')))"

subsection \<open>The transformation of the document\<close>

record summary =
  totalCards :: nat
  tagsAdded :: nat
  htmlRemoved :: nat
  cardsModified :: nat

definition zero_counters :: counters where
  "zero_counters = \<lparr>fixedTagsCount = 0, fixedHtmlCount = 0, totalChanges = 0\<rparr>"

definition summary_of :: "nat \<Rightarrow> counters \<Rightarrow> summary" where
  "summary_of n cnt =
     \<lparr>totalCards = n, tagsAdded = fixedTagsCount cnt, htmlRemoved = fixedHtmlCount cnt,
      cardsModified = totalChanges cnt\<rparr>"

text \<open>
  The assignments after the loop. \<open>jsonData.data.mainFlashcards = ...\<close> throws when
  \<open>data\<close> is \<open>undefined\<close> or \<open>null\<close>. On an array the assignment leaves the printed
  document as it was, and an array has no \<open>chapterCollections\<close>. On a boolean, a number
  or a string the assignment does nothing (the script is run by \<open>tsx\<close> as a CommonJS
  module, it reads \<open>__dirname\<close>, so its code is sloppy), and the value has no
  \<open>chapterCollections\<close> either: the document is written as it was.
\<close>

definition put_back :: "json \<Rightarrow> nat \<Rightarrow> json list \<Rightarrow> error + json" where
  "put_back jsonData mainLength cards =
     (case get jsonData ''data'' of
        Some (JObj d) \<Rightarrow>
          (let d1 = AList.update ''mainFlashcards'' (JArr (take mainLength cards)) d
           in case map_of d1 ''chapterCollections'' of
                Some (JArr colls) \<Rightarrow>
                  (case rebuild cards (Num (int mainLength)) colls of
                     Inl e \<Rightarrow> Inl e
                   | Inr colls' \<Rightarrow>
                       Inr (set_prop jsonData ''data''
                              (JObj (AList.update ''chapterCollections'' (JArr colls') d1))))
              | _ \<Rightarrow> Inr (set_prop jsonData ''data'' (JObj d1)))
      | Some JNull \<Rightarrow> Inl TypeError
      | None \<Rightarrow> Inl TypeError
      | Some other \<Rightarrow> Inr jsonData)"

text \<open>
  The body of the \<open>try\<close> block between \<open>JSON.parse\<close> and \<open>writeFileSync\<close>: the document to
  write and the numbers of the summary, or the exception.
\<close>

definition transform :: "json \<Rightarrow> error + (json \<times> summary)" where
  "transform jsonData =
     (if jsonData = JNull then Inl TypeError
      else
        (let dat = get jsonData ''data'' in
         case chapterCards_of dat of
           Inl e \<Rightarrow> Inl e
         | Inr chapterCards \<Rightarrow>
             (case spread (or_empty (opt_prop dat ''mainFlashcards'')) of
                Inl e \<Rightarrow> Inl e
              | Inr mainCards \<Rightarrow>
                  (case fixCards (mainCards @ chapterCards) zero_counters of
                     Inl e \<Rightarrow> Inl e
                   | Inr (cards, cnt) \<Rightarrow>
                       (case put_back jsonData (length mainCards) cards of
                          Inl e \<Rightarrow> Inl e
                        | Inr out \<Rightarrow> Inr (out, summary_of (length cards) cnt))))))"

subsection \<open>The run\<close>

text \<open>
  The script acts on a world: the store file, the documents handed to \<open>writeFileSync\<close> so
  far, and the lines printed so far. The store file cannot be read, or its text is not
  JSON, or it holds a document. What is printed is kept by what it reports, not by its
  characters: \<open>Banner\<close>, \<open>Summary\<close>, \<open>Verdict\<close> and \<open>Failure\<close> each stand for the few lines
  printed together.
\<close>

datatype store_file = Unreadable | Malformed | Document json

datatype line =
    Banner
  | Loading
  | Loaded nat nat nat
  | Removing string string
  | Saving
  | Saved nat
  | Summary summary
  | Verdict bool
  | Failure error

record world =
  disk :: store_file
  written :: "json list"
  console :: "line list"

text \<open>
  A step of the script takes the world and gives a value or an exception, and the world
  it leaves. \<open>and_then\<close> is the semicolon: an exception skips what follows and keeps the
  world as it stands.
\<close>

type_synonym 'a step = "world \<Rightarrow> (error + 'a) \<times> world"

definition ret :: "'a \<Rightarrow> 'a step" where
  "ret x = (\<lambda>w. (Inr x, w))"

definition throw :: "error \<Rightarrow> 'a step" where
  "throw e = (\<lambda>w. (Inl e, w))"

definition lift :: "error + 'a \<Rightarrow> 'a step" where
  "lift r = (\<lambda>w. (r, w))"

definition and_then :: "'a step \<Rightarrow> ('a \<Rightarrow> 'b step) \<Rightarrow> 'b step" where
  "and_then m f = (\<lambda>w. case m w of (Inl e, w') \<Rightarrow> (Inl e, w') | (Inr x, w') \<Rightarrow> f x w')"

definition log_line :: "line \<Rightarrow> unit step" where
  "log_line l = (\<lambda>w. (Inr (), w\<lparr>console := console w @ [l]\<rparr>))"

text \<open>\<open>fs.readFileSync\<close> followed by \<open>JSON.parse\<close>.\<close>

fun load :: "store_file \<Rightarrow> error + json" where
  "load Unreadable = Inl ReadError"
| "load Malformed = Inl SyntaxError"
| "load (Document jsonData) = Inr jsonData"

definition readStore :: "json step" where
  "readStore = (\<lambda>w. (load (disk w), w))"

definition writeFileSync :: "json \<Rightarrow> unit step" where
  "writeFileSync jsonData =
     (\<lambda>w. (Inr (), w\<lparr>disk := Document jsonData, written := written w @ [jsonData]\<rparr>))"

text \<open>
  The loop once more, now with what it prints: the notice of lines 191 and 200 comes
  after the string conversion of the id and before the assignment.
\<close>

definition strip_field_step :: "string \<Rightarrow> json \<Rightarrow> (json \<times> bool) step" where
  "strip_field_step k crd =
     (case get crd k of
        Some (JStr t) \<Rightarrow>
          (let clean = stripHtmlTags t
           in if clean \<noteq> t then
                and_then (lift (template (get crd ''id''))) (\<lambda>i.
                and_then (log_line (Removing k i)) (\<lambda>u.
                ret (set_prop crd k (JStr clean), True)))
              else ret (crd, False))
      | _ \<Rightarrow> throw TypeError)"

definition fixCard_step :: "json \<Rightarrow> counters \<Rightarrow> (json \<times> counters) step" where
  "fixCard_step crd cnt =
     (case crd of
        JObj kvs \<Rightarrow>
          and_then (lift (backfill crd)) (\<lambda>(c1, tagged).
          and_then (strip_field_step ''question'' c1) (\<lambda>(c2, qch).
          and_then (strip_field_step ''answer'' c2) (\<lambda>(c3, ach).
          ret (c3,
            \<lparr>fixedTagsCount = bump tagged (fixedTagsCount cnt),
             fixedHtmlCount = bump ach (bump qch (fixedHtmlCount cnt)),
             totalChanges = bump (tagged \<or> qch \<or> ach) (totalChanges cnt)\<rparr>))))
      | _ \<Rightarrow> throw TypeError)"

fun fixCards_step :: "json list \<Rightarrow> counters \<Rightarrow> (json list \<times> counters) step" where
  "fixCards_step [] cnt = ret ([], cnt)"
| "fixCards_step (crd # cards) cnt =
     and_then (fixCard_step crd cnt) (\<lambda>(crd', cnt').
     and_then (fixCards_step cards cnt') (\<lambda>(cards', cnt'').
     ret (crd' # cards', cnt'')))"

text \<open>
  The \<open>try\<close> block, statement by statement: load, take the cards out, run the loop, put
  the cards back, write, print the summary.
\<close>

definition try_block :: "unit step" where
  "try_block =
     and_then (log_line Loading) (\<lambda>u.
     and_then readStore (\<lambda>jsonData.
     and_then (lift (if jsonData = JNull then Inl TypeError else Inr (get jsonData ''data''))) (\<lambda>dat.
     and_then (lift (chapterCards_of dat)) (\<lambda>chapterCards.
     and_then (lift (spread (or_empty (opt_prop dat ''mainFlashcards'')))) (\<lambda>mainCards.
     and_then (log_line (Loaded (length (mainCards @ chapterCards)) (length mainCards)
                          (length chapterCards))) (\<lambda>u.
     and_then (fixCards_step (mainCards @ chapterCards) zero_counters) (\<lambda>(cards, cnt).
     and_then (log_line Saving) (\<lambda>u.
     and_then (lift (put_back jsonData (length mainCards) cards)) (\<lambda>out.
     and_then (writeFileSync out) (\<lambda>u.
     and_then (log_line (Saved (length cards))) (\<lambda>u.
     and_then (log_line (Summary (summary_of (length cards) cnt))) (\<lambda>u.
     log_line (Verdict (0 < totalChanges cnt))))))))))))))"

text \<open>
  The function \<open>fixFlashcards\<close> of the script, called on a world: the banner, the \<open>try\<close>
  block, and the \<open>catch\<close> that reports the exception and calls \<open>process.exit(1)\<close>. The
  result is the exit status and the world left behind; it is \<open>None\<close> on the shape
  the model leaves out.
\<close>

definition run_script :: "world \<Rightarrow> (nat \<times> world) option" where
  "run_script w =
     (case try_block (snd (log_line Banner w)) of
        (Inr u, w') \<Rightarrow> Some (0, w')
      | (Inl e, w') \<Rightarrow>
          if e = Unmodelled then None else Some (1, snd (log_line (Failure e) w')))"

text \<open>
  A run from a fresh world, observed by the documents written, the exit status and the
  summary printed.
\<close>

record outcome =
  writes :: "json list"
  exit_status :: nat
  printed :: "summary option"

fun printed_summary :: "line list \<Rightarrow> summary option" where
  "printed_summary [] = None"
| "printed_summary (Summary s # ls) = Some s"
| "printed_summary (l # ls) = printed_summary ls"

definition start :: "store_file \<Rightarrow> world" where
  "start store = \<lparr>disk = store, written = [], console = []\<rparr>"

definition fixFlashcards :: "store_file \<Rightarrow> outcome option" where
  "fixFlashcards store =
     (case run_script (start store) of
        None \<Rightarrow> None
      | Some (status, w) \<Rightarrow>
          Some \<lparr>writes = written w, exit_status = status, printed = printed_summary (console w)\<rparr>)"

section \<open>The description's terms\<close>

text \<open>
  The definitions of this section are not taken from the script. They say, in the terms
  of the model, what the description of the script speaks about: where markup stands in
  a text, what the groups of a store are, and which fields of a card the two passes may
  touch.
\<close>

subsection \<open>Markup in a text\<close>

text \<open>
  \<open>markup_at s i e\<close>: the characters of \<open>s\<close> from position \<open>i\<close> to position \<open>e\<close> are a markup
  tag, that is a \<open><\<close>, one or more characters other than \<open>>\<close>, and a \<open>>\<close>.
  \<open>in_markup s k\<close>: position \<open>k\<close> of \<open>s\<close> lies inside some markup tag of \<open>s\<close>.
\<close>

definition markup_at :: "string \<Rightarrow> nat \<Rightarrow> nat \<Rightarrow> bool" where
  "markup_at s i e =
     (Suc i < e \<and> e < length s \<and> s ! i = CHR ''<'' \<and> s ! e = CHR ''>'' \<and>
      \<not> (\<exists>m\<in>{Suc i..<e}. s ! m = CHR ''>''))"

definition in_markup :: "string \<Rightarrow> nat \<Rightarrow> bool" where
  "in_markup s k = (\<exists>i\<in>{..k}. \<exists>e\<in>{k..<length s}. markup_at s i e)"

subsection \<open>The groups of a store\<close>

text \<open>
  The primary list and the card list of each sub-collection, in the order of the
  document; \<open>groups\<close> puts the primary list first. A part that is not a list counts as
  empty. \<open>content_store\<close> is the shape
  \<open>{data: {mainFlashcards: [...], chapterCollections: [{flashcards: [...]}, ...]}}\<close>
  with the two tolerances the script has at both ends of the run: the primary list may
  be a falsy value (it is replaced by the empty list), and \<open>chapterCollections\<close> may be
  something other than a list (it is skipped). A collection of the list has a
  \<open>flashcards\<close> list.
\<close>

definition flashcards_of :: "json \<Rightarrow> json list" where
  "flashcards_of collection =
     (case get collection ''flashcards'' of Some (JArr fs) \<Rightarrow> fs | _ \<Rightarrow> [])"

definition primary :: "json \<Rightarrow> json list" where
  "primary store =
     (case opt_prop (get store ''data'') ''mainFlashcards'' of Some (JArr ms) \<Rightarrow> ms | _ \<Rightarrow> [])"

definition sub_collections :: "json \<Rightarrow> json list list" where
  "sub_collections store =
     (case opt_prop (get store ''data'') ''chapterCollections'' of
        Some (JArr cs) \<Rightarrow> map flashcards_of cs
      | _ \<Rightarrow> [])"

definition groups :: "json \<Rightarrow> json list list" where
  "groups store = primary store # sub_collections store"

definition has_flashcards :: "json \<Rightarrow> bool" where
  "has_flashcards collection =
     (case get collection ''flashcards'' of Some (JArr fs) \<Rightarrow> True | _ \<Rightarrow> False)"

definition list_or_missing :: "json option \<Rightarrow> bool" where
  "list_or_missing v = (case v of Some (JArr xs) \<Rightarrow> True | _ \<Rightarrow> \<not> truthy v)"

definition content_store :: "json \<Rightarrow> bool" where
  "content_store store =
     (case get store ''data'' of
        Some (JObj d) \<Rightarrow>
          list_or_missing (map_of d ''mainFlashcards'') \<and>
          (case map_of d ''chapterCollections'' of
             Some (JArr cs) \<Rightarrow> list_all has_flashcards cs
           | _ \<Rightarrow> True)
      | _ \<Rightarrow> False)"

text \<open>
  A card as the interface \<open>FlashcardData\<close> declares it, with the one tolerance the script
  itself shows (line 182): \<open>tags\<close> may be missing or \<open>null\<close>.
\<close>

definition is_string :: "json option \<Rightarrow> bool" where
  "is_string v = (case v of Some (JStr s) \<Rightarrow> True | _ \<Rightarrow> False)"

definition is_FlashcardData :: "json \<Rightarrow> bool" where
  "is_FlashcardData crd =
     (case crd of
        JObj kvs \<Rightarrow>
          is_string (map_of kvs ''id'') \<and> is_string (map_of kvs ''question'') \<and>
          is_string (map_of kvs ''answer'') \<and> is_string (map_of kvs ''difficulty'') \<and>
          is_string (map_of kvs ''type'') \<and>
          (case map_of kvs ''tags'' of
             None \<Rightarrow> True
           | Some JNull \<Rightarrow> True
           | Some (JArr ts) \<Rightarrow> list_all (\<lambda>t. is_string (Some t)) ts
           | _ \<Rightarrow> False) \<and>
          (case map_of kvs ''chapterNumber'' of None \<Rightarrow> True | Some (JNum n) \<Rightarrow> True | _ \<Rightarrow> False) \<and>
          (case map_of kvs ''chapterTitle'' of None \<Rightarrow> True | Some (JStr t) \<Rightarrow> True | _ \<Rightarrow> False)
      | _ \<Rightarrow> False)"

text \<open>The fields of a card other than \<open>question\<close>, \<open>answer\<close> and \<open>tags\<close>, in their order.\<close>

definition other_fields :: "json \<Rightarrow> (string \<times> json) list" where
  "other_fields crd =
     (case crd of
        JObj kvs \<Rightarrow> filter (\<lambda>kv. fst kv \<notin> set [''question'', ''answer'', ''tags'']) kvs
      | _ \<Rightarrow> [])"

subsection \<open>Cards after a run\<close>

text \<open>
  \<open>has_tags\<close>: the card's \<open>tags\<close> is a non-empty list. \<open>clean_text\<close>: the field is a string
  that \<open>stripHtmlTags\<close> leaves as it is; \<open>settled\<close>: question and answer are both clean.
  \<open>markup_fields\<close>: how many of the two text fields of a card are not clean.
\<close>

definition has_tags :: "json \<Rightarrow> bool" where
  "has_tags crd = (case get crd ''tags'' of Some (JArr ts) \<Rightarrow> ts \<noteq> [] | _ \<Rightarrow> False)"

definition clean_text :: "json option \<Rightarrow> bool" where
  "clean_text v = (case v of Some (JStr t) \<Rightarrow> stripHtmlTags t = t | _ \<Rightarrow> False)"

definition settled :: "json \<Rightarrow> bool" where
  "settled crd =
     (case crd of
        JObj kvs \<Rightarrow> clean_text (map_of kvs ''question'') \<and> clean_text (map_of kvs ''answer'')
      | _ \<Rightarrow> False)"

definition markup_fields :: "json \<Rightarrow> nat" where
  "markup_fields crd =
     (if clean_text (get crd ''question'') then 0 else 1) +
     (if clean_text (get crd ''answer'') then 0 else 1)"

section \<open>Properties\<close>

subsection \<open>What stripHtmlTags removes\<close>

lemma nths_cong_below:
  "(\<And>i. i < length xs \<Longrightarrow> (i \<in> A) = (i \<in> B)) \<Longrightarrow> nths xs A = nths xs B"
  unfolding nths_def
  by (rule arg_cong[where f = "map fst"], rule filter_cong) (auto dest: set_zip_rightD)

lemma match_tag_Some_markup:
  assumes "match_tag s = Some rest"
  shows "\<exists>e. markup_at s 0 e \<and> rest = drop (Suc e) s"
proof -
  let ?P = "\<lambda>x. x \<noteq> CHR ''>''"
  from assms obtain c cs where s: "s = c # cs"
    by (cases s) (auto simp: match_tag_def)
  let ?n = "length (takeWhile ?P cs)"
  from assms s have c: "c = CHR ''<''" and b: "takeWhile ?P cs \<noteq> []"
    and d: "dropWhile ?P cs \<noteq> []" and r: "rest = tl (dropWhile ?P cs)"
    by (auto simp: match_tag_def Let_def split: if_splits)
  from b have n0: "0 < ?n" by simp
  from d have nl: "?n < length cs"
    by (simp add: dropWhile_eq_drop)
  from nth_length_takeWhile[OF nl] have gt: "cs ! ?n = CHR ''>''" by simp
  have body: "cs ! m \<noteq> CHR ''>''" if "m < ?n" for m
  proof -
    from that have "takeWhile ?P cs ! m \<in> set (takeWhile ?P cs)" by simp
    then have "?P (takeWhile ?P cs ! m)" by (rule set_takeWhileD[THEN conjunct2])
    with takeWhile_nth[OF that] show ?thesis by simp
  qed
  have "markup_at s 0 (Suc ?n)"
    unfolding markup_at_def using s c n0 nl gt body
    by (auto simp: nth_Cons split: nat.splits)
  moreover have "rest = drop (Suc (Suc ?n)) s"
    using r s by (simp add: dropWhile_eq_drop[of ?P cs] drop_Suc tl_drop)
  ultimately show ?thesis by blast
qed

lemma markup_match_tag:
  assumes "markup_at s 0 e"
  shows "match_tag s = Some (drop (Suc e) s)"
proof -
  let ?P = "\<lambda>x. x \<noteq> CHR ''>''"
  from assms obtain c cs where s: "s = c # cs"
    by (cases s) (auto simp: markup_at_def)
  let ?n = "length (takeWhile ?P cs)"
  from assms s have c: "c = CHR ''<''" and e1: "1 < e" and el: "e - 1 < length cs"
    and gt: "cs ! (e - 1) = CHR ''>''"
    and body: "\<And>m. m < e - 1 \<Longrightarrow> cs ! m \<noteq> CHR ''>''"
    by (auto simp: markup_at_def nth_Cons split: nat.splits)
  have "e - 1 \<le> ?n"
    by (rule length_takeWhile_less_P_nth) (use body el in auto)
  moreover have "\<not> e - 1 < ?n"
  proof
    assume l: "e - 1 < ?n"
    then have "takeWhile ?P cs ! (e - 1) \<in> set (takeWhile ?P cs)" by simp
    then have "?P (takeWhile ?P cs ! (e - 1))" by (rule set_takeWhileD[THEN conjunct2])
    with takeWhile_nth[OF l] gt show False by simp
  qed
  ultimately have n: "?n = e - 1" by simp
  from n e1 have b: "takeWhile ?P cs \<noteq> []" by auto
  from n el have d: "dropWhile ?P cs \<noteq> []" by (simp add: dropWhile_eq_drop)
  from e1 obtain e0 where e0: "e = Suc e0" by (cases e) auto
  have "tl (dropWhile ?P cs) = drop (Suc e) s"
    using s n e0 by (simp add: dropWhile_eq_drop[of ?P cs] drop_Suc tl_drop)
  with s c b d show ?thesis
    by (simp add: match_tag_def Let_def)
qed

lemma markup_at_drop:
  assumes "n \<le> length s"
  shows "markup_at (drop n s) i e = markup_at s (i + n) (e + n)"
proof -
  have "(\<exists>m\<in>{Suc i..<e}. s ! (n + m) = CHR ''>'') = (\<exists>m\<in>{Suc (i + n)..<e + n}. s ! m = CHR ''>'')"
  proof
    assume "\<exists>m\<in>{Suc i..<e}. s ! (n + m) = CHR ''>''"
    then obtain m where "m \<in> {Suc i..<e}" "s ! (n + m) = CHR ''>''" by blast
    then have "n + m \<in> {Suc (i + n)..<e + n}" "s ! (n + m) = CHR ''>''" by auto
    then show "\<exists>m\<in>{Suc (i + n)..<e + n}. s ! m = CHR ''>''" by blast
  next
    assume "\<exists>m\<in>{Suc (i + n)..<e + n}. s ! m = CHR ''>''"
    then obtain m where m: "m \<in> {Suc (i + n)..<e + n}" "s ! m = CHR ''>''" by blast
    then have "m - n \<in> {Suc i..<e}" "s ! (n + (m - n)) = CHR ''>''" by auto
    then show "\<exists>m\<in>{Suc i..<e}. s ! (n + m) = CHR ''>''" by blast
  qed
  with assms show ?thesis
    by (auto simp: markup_at_def add.commute)
qed

lemma in_markup_after_tag:
  assumes t: "markup_at s 0 e"
  shows "in_markup s (j + Suc e) = in_markup (drop (Suc e) s) j"
proof
  from t have le: "Suc e \<le> length s" by (simp add: markup_at_def)
  {
    assume "in_markup (drop (Suc e) s) j"
    then obtain i e' where "i \<le> j" "j \<le> e'" "e' < length s - Suc e" "markup_at (drop (Suc e) s) i e'"
      by (auto simp: in_markup_def)
    with markup_at_drop[OF le, of i e'] have "i + Suc e \<le> j + Suc e" "j + Suc e \<le> e' + Suc e"
      "e' + Suc e < length s" "markup_at s (i + Suc e) (e' + Suc e)"
      by auto
    then show "in_markup s (j + Suc e)"
      unfolding in_markup_def by (metis atLeastLessThan_iff atMost_iff)
  }
  {
    assume "in_markup s (j + Suc e)"
    then obtain i e' where i: "i \<le> j + Suc e" and e': "j + Suc e \<le> e'" "e' < length s"
      and m: "markup_at s i e'"
      by (auto simp: in_markup_def)
    have "Suc e \<le> i"
    proof (rule ccontr)
      assume "\<not> Suc e \<le> i"
      then have ie: "i \<le> e" by simp
      show False
      proof (cases "i = e")
        case True
        with m t show False by (simp add: markup_at_def)
      next
        case False
        with ie e' have "e \<in> {Suc i..<e'}" by auto
        moreover from t have "s ! e = CHR ''>''" by (simp add: markup_at_def)
        ultimately show False using m by (auto simp: markup_at_def)
      qed
    qed
    then obtain i0 where i0: "i = i0 + Suc e" by (metis le_add_diff_inverse2)
    from e' obtain e0 where e0: "e' = e0 + Suc e" by (metis le_add_diff_inverse2 le_add2 le_trans)
    from m i0 e0 markup_at_drop[OF le, of i0 e0] have "markup_at (drop (Suc e) s) i0 e0" by simp
    moreover from i i0 have "i0 \<le> j" by simp
    moreover from e' e0 have "j \<le> e0" "e0 < length s - Suc e" by auto
    ultimately show "in_markup (drop (Suc e) s) j"
      unfolding in_markup_def by (metis atLeastLessThan_iff atMost_iff length_drop)
  }
qed

lemma in_markup_tag:
  assumes t: "markup_at s 0 e" and "k \<le> e"
  shows "in_markup s k"
  using assms unfolding in_markup_def markup_at_def
  by (metis atLeastLessThan_iff atMost_iff le0)

lemma in_markup_Cons:
  assumes "match_tag (c # cs) = None"
  shows "\<not> in_markup (c # cs) 0" and "in_markup (c # cs) (Suc j) = in_markup cs j"
proof -
  have none: "\<not> markup_at (c # cs) 0 e" for e
    using assms markup_match_tag[of "c # cs" e] by auto
  then show "\<not> in_markup (c # cs) 0"
    by (auto simp: in_markup_def)
  have sh: "markup_at cs i e = markup_at (c # cs) (Suc i) (Suc e)" for i e
    using markup_at_drop[of 1 "c # cs" i e] by simp
  show "in_markup (c # cs) (Suc j) = in_markup cs j"
  proof
    assume "in_markup cs j"
    then obtain i e where "i \<le> j" "j \<le> e" "e < length cs" "markup_at cs i e"
      by (auto simp: in_markup_def)
    with sh[of i e] have "Suc i \<le> Suc j" "Suc j \<le> Suc e" "Suc e < length (c # cs)"
      "markup_at (c # cs) (Suc i) (Suc e)" by auto
    then show "in_markup (c # cs) (Suc j)"
      unfolding in_markup_def by (metis atLeastLessThan_iff atMost_iff)
  next
    assume "in_markup (c # cs) (Suc j)"
    then obtain i e where i: "i \<le> Suc j" and e: "Suc j \<le> e" "e < length (c # cs)"
      and m: "markup_at (c # cs) i e"
      by (auto simp: in_markup_def)
    from m none have "i \<noteq> 0" by (cases i) auto
    then obtain i0 where i0: "i = Suc i0" by (cases i) auto
    from e obtain e0 where e0: "e = Suc e0" by (cases e) auto
    from m i0 e0 sh[of i0 e0] have "markup_at cs i0 e0" by simp
    moreover from i i0 e e0 have "i0 \<le> j" "j \<le> e0" "e0 < length cs" by auto
    ultimately show "in_markup cs j"
      unfolding in_markup_def by (metis atLeastLessThan_iff atMost_iff)
  qed
qed

lemma strip_spec: "stripHtmlTags s = nths s {k. \<not> in_markup s k}"
proof (induction s rule: stripHtmlTags.induct)
  case 1
  show ?case by simp
next
  case (2 c cs)
  show ?case
  proof (cases "match_tag (c # cs)")
    case None
    from in_markup_Cons[OF None] "2.IH"(1)[OF None]
    show ?thesis
      using None by (simp add: nths_Cons)
  next
    case (Some rest)
    let ?s = "c # cs"
    from match_tag_Some_markup[OF Some] obtain e where t: "markup_at ?s 0 e"
      and r: "rest = drop (Suc e) ?s" by blast
    from t have le: "Suc e \<le> length ?s" by (simp add: markup_at_def)
    have split: "?s = take (Suc e) ?s @ rest" using r by simp
    have "nths (take (Suc e) ?s) {k. \<not> in_markup ?s k} = []"
    proof -
      have "set (nths (take (Suc e) ?s) {k. \<not> in_markup ?s k}) = {}"
        using in_markup_tag[OF t] by (auto simp: set_nths)
      then show ?thesis by simp
    qed
    moreover have "nths rest {j. j + length (take (Suc e) ?s) \<in> {k. \<not> in_markup ?s k}}
        = nths rest {k. \<not> in_markup rest k}"
      using in_markup_after_tag[OF t] le r by (simp add: min_absorb2)
    ultimately have "nths ?s {k. \<not> in_markup ?s k} = nths rest {k. \<not> in_markup rest k}"
      using nths_append[of "take (Suc e) ?s" rest "{k. \<not> in_markup ?s k}"] split by simp
    with "2.IH"(2)[OF Some] Some show ?thesis by simp
  qed
qed

lemma in_markup_bound: "in_markup s k \<Longrightarrow> k < length s"
  by (auto simp: in_markup_def)

lemma strip_no_markup:
  assumes "\<not> (\<exists>k. in_markup s k)"
  shows "stripHtmlTags s = s"
proof -
  have "nths s {k. \<not> in_markup s k} = s"
    by (rule nths_all) (use assms in auto)
  then show ?thesis by (simp add: strip_spec)
qed

lemma no_markup_iff:
  "(\<exists>k. in_markup s k) \<longleftrightarrow> (\<exists>i<length s. match_tag (drop i s) \<noteq> None)"
proof
  assume "\<exists>k. in_markup s k"
  then obtain k i e where "i \<le> k" "k \<le> e" "e < length s" and m: "markup_at s i e"
    by (auto simp: in_markup_def)
  then have ie: "i \<le> e" "e < length s" by simp_all
  from ie have "i \<le> length s" by simp
  from markup_at_drop[OF this, of 0 "e - i"] m ie have "markup_at (drop i s) 0 (e - i)" by simp
  from markup_match_tag[OF this] have "match_tag (drop i s) \<noteq> None" by simp
  moreover from ie have "i < length s" by simp
  ultimately show "\<exists>i<length s. match_tag (drop i s) \<noteq> None" by blast
next
  assume "\<exists>i<length s. match_tag (drop i s) \<noteq> None"
  then obtain i rest where i: "i < length s" and "match_tag (drop i s) = Some rest" by auto
  from match_tag_Some_markup[OF this(2)] obtain e where e: "markup_at (drop i s) 0 e" by blast
  from i have "i \<le> length s" by simp
  from markup_at_drop[OF this, of 0 e] e have m: "markup_at s i (e + i)" by simp
  then have "i \<le> e + i" "e + i < length s" by (simp_all add: markup_at_def)
  with m have "in_markup s i"
    unfolding in_markup_def by (metis atLeastLessThan_iff atMost_iff order_refl)
  then show "\<exists>k. in_markup s k" by blast
qed

lemma no_markup_list:
  "(\<not> (\<exists>k. in_markup s k)) = list_all (\<lambda>i. match_tag (drop i s) = None) [0..<length s]"
  by (auto simp: no_markup_iff list_all_iff)

text \<open>
  Claim C3. For every text, \<open>stripHtmlTags\<close> returns the characters that lie in no markup
  tag of the text, in their order: exactly the substrings matching \<open><\<close>, one or more
  characters other than \<open>>\<close>, \<open>>\<close> are removed and every other character is kept. In
  particular a text without markup is returned unchanged, and
  \<open>What is <b>shock</b>?\<close> becomes \<open>What is shock?\<close>.
\<close>

theorem stripHtmlTags_removes_exactly_the_markup:
  "stripHtmlTags s = nths s {k. \<not> in_markup s k}
   \<and> (\<not> (\<exists>k. in_markup s k) \<longrightarrow> stripHtmlTags s = s)
   \<and> stripHtmlTags ''What is <b>shock</b>?'' = ''What is shock?''"
proof -
  have "stripHtmlTags ''What is <b>shock</b>?'' = ''What is shock?''"
    by code_simp
  with strip_spec[of s] strip_no_markup[of s] show ?thesis by blast
qed

theorem stripHtmlTags_removes_exactly_the_markup_witness:
  "\<not> (\<exists>k. in_markup ''2 <> 3 > 1'' k) \<and> stripHtmlTags ''2 <> 3 > 1'' = ''2 <> 3 > 1''
   \<and> stripHtmlTags ''a <i>b</i>'' = nths ''a <i>b</i>'' {k. \<not> in_markup ''a <i>b</i>'' k}"
proof -
  have "\<not> (\<exists>k. in_markup ''2 <> 3 > 1'' k)"
    unfolding no_markup_list by code_simp
  with stripHtmlTags_removes_exactly_the_markup[of "''2 <> 3 > 1''"]
    stripHtmlTags_removes_exactly_the_markup[of "''a <i>b</i>''"]
  show ?thesis by blast
qed

text \<open>Stripping a stripped text changes nothing, and a stripped text holds no markup.\<close>

lemma match_tag_None_iff:
  "match_tag (c # cs) = None \<longleftrightarrow>
     c \<noteq> CHR ''<'' \<or> takeWhile (\<lambda>x. x \<noteq> CHR ''>'') cs = [] \<or> dropWhile (\<lambda>x. x \<noteq> CHR ''>'') cs = []"
  by (auto simp: match_tag_def Let_def)

lemma set_strip_subset: "set (stripHtmlTags s) \<subseteq> set s"
  by (simp add: strip_spec set_nths_subset)

lemma match_tag_strip_tail:
  assumes "match_tag (c # cs) = None"
  shows "match_tag (c # stripHtmlTags cs) = None"
proof -
  let ?P = "\<lambda>x. x \<noteq> CHR ''>''"
  from assms consider "c \<noteq> CHR ''<''" | "takeWhile ?P cs = []" | "dropWhile ?P cs = []"
    by (auto simp: match_tag_None_iff)
  then show ?thesis
  proof cases
    case 1
    then show ?thesis by (simp add: match_tag_None_iff)
  next
    case 2
    show ?thesis
    proof (cases cs)
      case Nil
      then show ?thesis by (simp add: match_tag_None_iff)
    next
      case (Cons x xs)
      with 2 have x: "x = CHR ''>''" by (auto split: if_splits)
      then have "match_tag (x # xs) = None" by (simp add: match_tag_def)
      with Cons x have "stripHtmlTags cs = CHR ''>'' # stripHtmlTags xs" by simp
      then show ?thesis by (simp add: match_tag_None_iff)
    qed
  next
    case 3
    then have "\<forall>x\<in>set cs. ?P x" by simp
    with set_strip_subset[of cs] have "\<forall>x\<in>set (stripHtmlTags cs). ?P x" by blast
    then have "dropWhile ?P (stripHtmlTags cs) = []" by simp
    then show ?thesis by (simp add: match_tag_None_iff)
  qed
qed

lemma stripHtmlTags_idem: "stripHtmlTags (stripHtmlTags s) = stripHtmlTags s"
proof (induction s rule: stripHtmlTags.induct)
  case 1
  show ?case by simp
next
  case (2 c cs)
  show ?case
  proof (cases "match_tag (c # cs)")
    case None
    with "2.IH"(1)[OF None] match_tag_strip_tail[OF None] show ?thesis by simp
  next
    case (Some rest)
    with "2.IH"(2)[OF Some] show ?thesis by simp
  qed
qed

lemma nths_eq_self:
  assumes "nths xs I = xs" and "i < length xs"
  shows "i \<in> I"
proof -
  let ?A = "{i. i < length xs \<and> i \<in> I}"
  have "card ?A = length xs"
    using assms(1) length_nths[of xs I] by simp
  then have "card ?A = card {..<length xs}" by simp
  moreover have "?A \<subseteq> {..<length xs}" by auto
  ultimately have "?A = {..<length xs}"
    by (intro card_subset_eq) simp_all
  with assms(2) show ?thesis by blast
qed

lemma stripped_text_has_no_markup: "\<not> in_markup (stripHtmlTags s) k"
proof
  assume m: "in_markup (stripHtmlTags s) k"
  let ?t = "stripHtmlTags s"
  have "nths ?t {k. \<not> in_markup ?t k} = ?t"
    using strip_spec[of ?t] stripHtmlTags_idem[of s] by simp
  from nths_eq_self[OF this in_markup_bound[OF m]] m show False by simp
qed

subsection \<open>Reading and writing fields\<close>

lemma get_set_prop_other: "k' \<noteq> k \<Longrightarrow> get (set_prop c k v) k' = get c k'"
  by (cases c) (simp_all add: update_conv')

lemma get_set_prop_same: "get (set_prop (JObj kvs) k v) k = Some v"
  by (simp add: update_conv')

lemma set_prop_twice: "set_prop (set_prop c k u) k v = set_prop c k v"
  by (cases c) simp_all

lemma fixCard_obj: "fixCard crd cnt = Inr (crd', cnt') \<Longrightarrow> \<exists>kvs. crd = JObj kvs"
  by (cases crd) (simp_all add: fixCard_def)

lemma fixCards_length: "fixCards cards cnt = Inr (cards', cnt') \<Longrightarrow> length cards' = length cards"
  by (induction cards arbitrary: cnt cards') (auto split: sum.splits prod.splits)

lemma generateDefaultTags_ignores_tags:
  "generateDefaultTags (set_prop crd ''tags'' v) = generateDefaultTags crd"
  by (simp add: generateDefaultTags_def chapter_tag_def type_tag_def difficulty_tag_def
      card_content_def get_set_prop_other cong: sum.case_cong)

subsection \<open>Cards that already have tags\<close>

lemma backfill_keeps_tags:
  assumes "get crd ''tags'' = Some (JArr ts)" and "ts \<noteq> []"
  shows "backfill crd = Inr (crd, False)"
  using assms by (simp add: backfill_def tags_missing_def)

lemma strip_field_other:
  "strip_field k crd = Inr (crd', ch) \<Longrightarrow> k' \<noteq> k \<Longrightarrow> get crd' k' = get crd k'"
  by (auto simp: strip_field_def Let_def get_set_prop_other
      split: option.splits json.splits if_splits sum.splits)

lemma fixCard_keeps_tags:
  assumes "get crd ''tags'' = Some (JArr ts)" and "ts \<noteq> []"
    and "fixCard crd cnt = Inr (crd', cnt')"
  shows "get crd' ''tags'' = Some (JArr ts) \<and> fixedTagsCount cnt' = fixedTagsCount cnt"
proof -
  from assms(3) obtain kvs where c: "crd = JObj kvs"
    using fixCard_obj by blast
  from assms(3) c backfill_keeps_tags[OF assms(1,2)]
  obtain c2 qch ach where q: "strip_field ''question'' crd = Inr (c2, qch)"
    and a: "strip_field ''answer'' c2 = Inr (crd', ach)"
    and n: "cnt' = \<lparr>fixedTagsCount = bump False (fixedTagsCount cnt),
                    fixedHtmlCount = bump ach (bump qch (fixedHtmlCount cnt)),
                    totalChanges = bump (False \<or> qch \<or> ach) (totalChanges cnt)\<rparr>"
    by (auto simp: fixCard_def split: sum.splits prod.splits)
  from strip_field_other[OF q, of "''tags''"] strip_field_other[OF a, of "''tags''"] assms(1)
  have "get crd' ''tags'' = Some (JArr ts)" by simp
  with n show ?thesis by (simp add: bump_def)
qed

text \<open>
  Claim C6. A card whose \<open>tags\<close> is a non-empty array leaves the loop with the same
  array, element for element and in the same order: the backfill neither removes nor
  appends a tag. This holds for the card at every position of the list the loop runs
  over, and the loop does not count the card as one with tags added.
\<close>

theorem tagged_cards_keep_their_tags:
  assumes "fixCards cards cnt = Inr (cards', cnt')"
    and "i < length cards"
    and "get (cards ! i) ''tags'' = Some (JArr ts)"
    and "ts \<noteq> []"
  shows "i < length cards' \<and> get (cards' ! i) ''tags'' = Some (JArr ts)"
  using assms
proof (induction cards arbitrary: cnt cards' i)
  case Nil
  then show ?case by simp
next
  case (Cons c cs)
  from Cons.prems(1) obtain c' cnt1 cs' where
    h: "fixCard c cnt = Inr (c', cnt1)" and t: "fixCards cs cnt1 = Inr (cs', cnt')"
    and r: "cards' = c' # cs'"
    by (auto split: sum.splits prod.splits)
  show ?case
  proof (cases i)
    case 0
    with Cons.prems(3,4) h have "get c' ''tags'' = Some (JArr ts)"
      using fixCard_keeps_tags[of c ts cnt c' cnt1] by simp
    with 0 r show ?thesis by simp
  next
    case (Suc j)
    with Cons.prems Cons.IH[OF t, of j] r show ?thesis by simp
  qed
qed

theorem tagged_cards_keep_their_tags_witness:
  "fixCards [JObj [(''id'', JStr ''a''), (''question'', JStr ''<b>Q</b>''), (''answer'', JStr ''A''),
                   (''difficulty'', JStr ''Basic''), (''type'', JStr ''definition''),
                   (''tags'', JArr [JStr ''junk''])]] zero_counters
     = Inr ([JObj [(''id'', JStr ''a''), (''question'', JStr ''Q''), (''answer'', JStr ''A''),
                   (''difficulty'', JStr ''Basic''), (''type'', JStr ''definition''),
                   (''tags'', JArr [JStr ''junk''])]],
            \<lparr>fixedTagsCount = 0, fixedHtmlCount = 1, totalChanges = 1\<rparr>)
   \<and> get ([JObj [(''id'', JStr ''a''), (''question'', JStr ''Q''), (''answer'', JStr ''A''),
                   (''difficulty'', JStr ''Basic''), (''type'', JStr ''definition''),
                   (''tags'', JArr [JStr ''junk''])]] ! 0) ''tags'' = Some (JArr [JStr ''junk''])"
proof -
  let ?c = "JObj [(''id'', JStr ''a''), (''question'', JStr ''<b>Q</b>''), (''answer'', JStr ''A''),
                   (''difficulty'', JStr ''Basic''), (''type'', JStr ''definition''),
                   (''tags'', JArr [JStr ''junk''])]"
  let ?c' = "JObj [(''id'', JStr ''a''), (''question'', JStr ''Q''), (''answer'', JStr ''A''),
                   (''difficulty'', JStr ''Basic''), (''type'', JStr ''definition''),
                   (''tags'', JArr [JStr ''junk''])]"
  have run: "fixCards [?c] zero_counters
      = Inr ([?c'], \<lparr>fixedTagsCount = 0, fixedHtmlCount = 1, totalChanges = 1\<rparr>)"
    by code_simp
  have tg: "get ([?c] ! 0) ''tags'' = Some (JArr [JStr ''junk''])"
    by simp
  from tagged_cards_keep_their_tags[OF run _ tg] have "get ([?c'] ! 0) ''tags'' = Some (JArr [JStr ''junk''])"
    by simp
  with run show ?thesis by simp
qed

subsection \<open>Cards without a tags field\<close>

text \<open>
  Claim C10. A card whose \<open>tags\<close> field is absent (\<open>undefined\<close>) or \<open>null\<close> goes through
  the loop exactly as the same card with \<open>tags\<close> set to the empty array does: the two
  runs of the loop body give the same card and the same counters, or the same exception.
  When the body succeeds, the field holds the generated default tags and the card is
  counted once as a card with tags added and once as a modified card.
\<close>

theorem missing_tags_field_is_backfilled:
  assumes "get crd ''tags'' = None \<or> get crd ''tags'' = Some JNull"
  shows "fixCard (set_prop crd ''tags'' (JArr [])) cnt = fixCard crd cnt
     \<and> (\<forall>crd' cnt'. fixCard crd cnt = Inr (crd', cnt') \<longrightarrow>
          (\<exists>ts. generateDefaultTags crd = Inr ts \<and> get crd' ''tags'' = Some (JArr ts))
          \<and> fixedTagsCount cnt' = Suc (fixedTagsCount cnt)
          \<and> totalChanges cnt' = Suc (totalChanges cnt))"
proof (cases crd)
  case (JObj kvs)
  from assms have m: "tags_missing crd"
    by (auto simp: tags_missing_def)
  have m': "tags_missing (set_prop crd ''tags'' (JArr []))"
    using JObj by (simp add: tags_missing_def update_conv')
  have "backfill (set_prop crd ''tags'' (JArr [])) = backfill crd"
    using m m' by (simp add: backfill_def generateDefaultTags_ignores_tags set_prop_twice
        cong: sum.case_cong)
  then have same: "fixCard (set_prop crd ''tags'' (JArr [])) cnt = fixCard crd cnt"
    using JObj by (simp add: fixCard_def)
  have counted: "(\<exists>ts. generateDefaultTags crd = Inr ts \<and> get crd' ''tags'' = Some (JArr ts))
          \<and> fixedTagsCount cnt' = Suc (fixedTagsCount cnt)
          \<and> totalChanges cnt' = Suc (totalChanges cnt)"
    if run: "fixCard crd cnt = Inr (crd', cnt')" for crd' cnt'
  proof -
    from run JObj obtain c1 tagged c2 qch ach where
      b: "backfill crd = Inr (c1, tagged)"
      and q: "strip_field ''question'' c1 = Inr (c2, qch)"
      and a: "strip_field ''answer'' c2 = Inr (crd', ach)"
      and n: "cnt' = \<lparr>fixedTagsCount = bump tagged (fixedTagsCount cnt),
                    fixedHtmlCount = bump ach (bump qch (fixedHtmlCount cnt)),
                    totalChanges = bump (tagged \<or> qch \<or> ach) (totalChanges cnt)\<rparr>"
      by (auto simp: fixCard_def split: sum.splits prod.splits)
    from b m obtain ts where g: "generateDefaultTags crd = Inr ts"
      and c1: "c1 = set_prop crd ''tags'' (JArr ts)" and tg: "tagged"
      by (auto simp: backfill_def split: sum.splits)
    from c1 JObj have "get c1 ''tags'' = Some (JArr ts)"
      by (simp add: update_conv')
    with strip_field_other[OF q, of "''tags''"] strip_field_other[OF a, of "''tags''"]
    have "get crd' ''tags'' = Some (JArr ts)" by simp
    with g n tg show ?thesis by (simp add: bump_def)
  qed
  from same counted show ?thesis by blast
qed (simp_all add: fixCard_def)

theorem missing_tags_field_is_backfilled_witness:
  "get (JObj [(''id'', JStr ''n1''), (''question'', JStr ''How do you splint a fracture?''),
              (''answer'', JStr ''A''), (''difficulty'', JStr ''Basic''),
              (''type'', JStr ''scenario'')]) ''tags'' = None
   \<and> fixCard (JObj [(''id'', JStr ''n1''), (''question'', JStr ''How do you splint a fracture?''),
              (''answer'', JStr ''A''), (''difficulty'', JStr ''Basic''),
              (''type'', JStr ''scenario'')]) zero_counters
      = Inr (JObj [(''id'', JStr ''n1''), (''question'', JStr ''How do you splint a fracture?''),
              (''answer'', JStr ''A''), (''difficulty'', JStr ''Basic''),
              (''type'', JStr ''scenario''),
              (''tags'', JArr [JStr ''scenario'', JStr ''basic'', JStr ''trauma'',
                               JStr ''immobilization''])],
             \<lparr>fixedTagsCount = 1, fixedHtmlCount = 0, totalChanges = 1\<rparr>)
   \<and> fixCard (set_prop (JObj [(''id'', JStr ''n1''), (''question'', JStr ''How do you splint a fracture?''),
              (''answer'', JStr ''A''), (''difficulty'', JStr ''Basic''),
              (''type'', JStr ''scenario'')]) ''tags'' (JArr [])) zero_counters
      = Inr (JObj [(''id'', JStr ''n1''), (''question'', JStr ''How do you splint a fracture?''),
              (''answer'', JStr ''A''), (''difficulty'', JStr ''Basic''),
              (''type'', JStr ''scenario''),
              (''tags'', JArr [JStr ''scenario'', JStr ''basic'', JStr ''trauma'',
                               JStr ''immobilization''])],
             \<lparr>fixedTagsCount = 1, fixedHtmlCount = 0, totalChanges = 1\<rparr>)"
proof -
  let ?c = "JObj [(''id'', JStr ''n1''), (''question'', JStr ''How do you splint a fracture?''),
              (''answer'', JStr ''A''), (''difficulty'', JStr ''Basic''),
              (''type'', JStr ''scenario'')]"
  have absent: "get ?c ''tags'' = None"
    by simp
  have run: "fixCard ?c zero_counters
      = Inr (JObj [(''id'', JStr ''n1''), (''question'', JStr ''How do you splint a fracture?''),
              (''answer'', JStr ''A''), (''difficulty'', JStr ''Basic''),
              (''type'', JStr ''scenario''),
              (''tags'', JArr [JStr ''scenario'', JStr ''basic'', JStr ''trauma'',
                               JStr ''immobilization''])],
             \<lparr>fixedTagsCount = 1, fixedHtmlCount = 0, totalChanges = 1\<rparr>)"
    by code_simp
  from missing_tags_field_is_backfilled[of ?c zero_counters] absent
  have "fixCard (set_prop ?c ''tags'' (JArr [])) zero_counters = fixCard ?c zero_counters"
    by blast
  with absent run show ?thesis by simp
qed

subsection \<open>The generated tags\<close>

lemma set_dedup: "set (dedup xs) = set xs"
proof -
  have "set (fold (\<lambda>x acc. if x \<in> set acc then acc else acc @ [x]) xs acc) = set acc \<union> set xs" for acc
    by (induction xs arbitrary: acc) auto
  then show ?thesis by (simp add: dedup_def)
qed

lemma distinct_dedup: "distinct (dedup xs)"
proof -
  have "distinct acc \<Longrightarrow> distinct (fold (\<lambda>x acc. if x \<in> set acc then acc else acc @ [x]) xs acc)" for acc
    by (induction xs arbitrary: acc) auto
  then show ?thesis by (simp add: dedup_def)
qed

lemma generated_tags_with_type:
  assumes "get crd ''type'' = Some (JStr t)" and "t \<noteq> []" and "generateDefaultTags crd = Inr ts"
  shows "JStr t \<in> set ts \<and> distinct ts"
proof -
  from assms(1,2) have ty: "type_tag crd = [JStr t]"
    by (simp add: type_tag_def)
  from assms(3) obtain t1 t3 content where
    "ts = dedup (add_generic (t1 @ type_tag crd @ t3 @ topic_tags content))"
    by (auto simp: generateDefaultTags_def split: sum.splits)
  with ty show ?thesis
    by (auto simp: set_dedup distinct_dedup add_generic_def)
qed

lemma generic_tags_with_chapter:
  "generateDefaultTags
     (JObj [(''id'', JStr ''c1''), (''question'', JStr ''Q''), (''answer'', JStr ''A''),
            (''difficulty'', JStr ''Advanced''), (''type'', JStr ''application''),
            (''tags'', JArr []), (''chapterNumber'', JNum 3)])
   = Inr [JStr ''chapter-3'', JStr ''application'', JStr ''advanced'', JStr ''emt-basic'',
          JStr ''core-knowledge'']"
  by code_simp

lemma backfill_example:
  "generateDefaultTags
     (JObj [(''id'', JStr ''c2''), (''question'', JStr ''What is Patient Assessment?''),
            (''answer'', JStr ''A''), (''difficulty'', JStr ''Basic''),
            (''type'', JStr ''definition''), (''tags'', JArr []), (''chapterNumber'', JNum 10)])
   = Inr [JStr ''chapter-10'', JStr ''definition'', JStr ''basic'', JStr ''assessment'']"
  by code_simp

subsection \<open>Groups, sizes and order\<close>

lemma filter_update_hidden:
  "\<not> P k \<Longrightarrow> filter (\<lambda>kv. P (fst kv)) (AList.update k v al) = filter (\<lambda>kv. P (fst kv)) al"
  by (induction al) auto

lemma other_fields_set_prop:
  "k \<in> set [''question'', ''answer'', ''tags''] \<Longrightarrow> other_fields (set_prop c k v) = other_fields c"
  using filter_update_hidden[of "\<lambda>k. k \<notin> set [''question'', ''answer'', ''tags'']" k v]
  by (cases c) (simp_all add: other_fields_def)

lemma backfill_other_fields:
  "backfill c = Inr (c', b) \<Longrightarrow> other_fields c' = other_fields c"
  by (auto simp: backfill_def other_fields_set_prop split: if_splits sum.splits)

lemma strip_field_other_fields:
  "strip_field k c = Inr (c', b) \<Longrightarrow> k \<in> set [''question'', ''answer'', ''tags''] \<Longrightarrow>
   other_fields c' = other_fields c"
  by (auto simp: strip_field_def Let_def other_fields_set_prop
      split: option.splits json.splits if_splits sum.splits)

lemma fixCard_other_fields:
  assumes "fixCard c cnt = Inr (c', cnt')"
  shows "other_fields c' = other_fields c"
proof -
  from assms obtain c1 tagged c2 qch ach where
    b: "backfill c = Inr (c1, tagged)"
    and q: "strip_field ''question'' c1 = Inr (c2, qch)"
    and a: "strip_field ''answer'' c2 = Inr (c', ach)"
    by (auto simp: fixCard_def split: json.splits sum.splits prod.splits)
  from backfill_other_fields[OF b] strip_field_other_fields[OF q] strip_field_other_fields[OF a]
  show ?thesis by simp
qed

lemma fixCards_other_fields:
  "fixCards cs cnt = Inr (cs', cnt') \<Longrightarrow> map other_fields cs' = map other_fields cs"
  by (induction cs arbitrary: cnt cs')
     (auto split: sum.splits prod.splits dest: fixCard_other_fields)

lemma fixCards_append:
  "fixCards (xs @ ys) cnt =
     (case fixCards xs cnt of
        Inl e \<Rightarrow> Inl e
      | Inr (xs', c1) \<Rightarrow>
          (case fixCards ys c1 of Inl e \<Rightarrow> Inl e | Inr (ys', c2) \<Rightarrow> Inr (xs' @ ys', c2)))"
  by (induction xs arbitrary: cnt) (auto split: sum.splits prod.splits)

lemma fixCards_concat:
  "fixCards (concat gs) cnt = Inr (out, cnt') \<Longrightarrow>
   \<exists>gs'. out = concat gs' \<and> map (map other_fields) gs' = map (map other_fields) gs"
proof (induction gs arbitrary: cnt out)
  case Nil
  then show ?case by simp
next
  case (Cons g gs)
  from Cons.prems obtain g' c1 rest' where
    g: "fixCards g cnt = Inr (g', c1)" and r: "fixCards (concat gs) c1 = Inr (rest', cnt')"
    and o: "out = g' @ rest'"
    by (auto simp: fixCards_append split: sum.splits prod.splits)
  from Cons.IH[OF r] obtain gs' where "rest' = concat gs'"
    "map (map other_fields) gs' = map (map other_fields) gs" by blast
  with o fixCards_other_fields[OF g] have "out = concat (g' # gs') \<and>
    map (map other_fields) (g' # gs') = map (map other_fields) (g # gs)" by simp
  then show ?case by blast
qed

lemma collect_shape:
  "list_all has_flashcards cs \<Longrightarrow> collect cs = Inr (concat (map flashcards_of cs))"
  by (induction cs) (auto simp: has_flashcards_def flashcards_of_def split: option.splits json.splits)

lemma js_slice_middle:
  "js_slice (a @ b @ c) (Num (int (length a))) (js_add (Num (int (length a))) (Num (int (length b)))) = b"
  by (simp add: js_slice_def rel_index_def Let_def)

lemma chapter_length_shape:
  "has_flashcards c \<Longrightarrow> chapter_length c = Inr (Num (int (length (flashcards_of c))))"
  by (auto simp: has_flashcards_def flashcards_of_def chapter_length_def split: option.splits json.splits)

lemma rebuild_groups:
  "list_all has_flashcards cs \<Longrightarrow> map length gs = map (\<lambda>c. length (flashcards_of c)) cs \<Longrightarrow>
   rebuild (pre @ concat gs) (Num (int (length pre))) cs
     = Inr (map (\<lambda>(c, g). set_prop c ''flashcards'' (JArr g)) (zip cs gs))"
proof (induction cs arbitrary: pre gs)
  case Nil
  then show ?case by simp
next
  case (Cons c cs)
  from Cons.prems(2) obtain g gs1 where gs: "gs = g # gs1" and lg: "length g = length (flashcards_of c)"
    and rest: "map length gs1 = map (\<lambda>c. length (flashcards_of c)) cs"
    by (cases gs) auto
  from Cons.prems(1) have hc: "has_flashcards c" and hcs: "list_all has_flashcards cs" by simp_all
  have idx: "js_add (Num (int (length pre))) (Num (int (length g))) = Num (int (length (pre @ g)))"
    by simp
  have sl: "js_slice (pre @ concat gs) (Num (int (length pre)))
              (js_add (Num (int (length pre))) (Num (int (length g)))) = g"
    using js_slice_middle[of pre g "concat gs1"] gs by simp
  have "rebuild (pre @ concat gs) (Num (int (length (pre @ g)))) cs
     = Inr (map (\<lambda>(c, g). set_prop c ''flashcards'' (JArr g)) (zip cs gs1))"
    using Cons.IH[OF hcs rest, of "pre @ g"] gs by simp
  with chapter_length_shape[OF hc] lg sl idx gs show ?case
    by simp
qed

lemma content_storeD:
  assumes "content_store j"
  obtains kvs d where "j = JObj kvs" "map_of kvs ''data'' = Some (JObj d)"
    "spread (or_empty (map_of d ''mainFlashcards'')) = Inr (primary j)"
    "(\<exists>cs. map_of d ''chapterCollections'' = Some (JArr cs) \<and> list_all has_flashcards cs
           \<and> sub_collections j = map flashcards_of cs)
     \<or> ((\<forall>cs. map_of d ''chapterCollections'' \<noteq> Some (JArr cs)) \<and> sub_collections j = [])"
proof -
  from assms obtain d where d: "get j ''data'' = Some (JObj d)"
    by (auto simp: content_store_def split: option.splits json.splits)
  then obtain kvs where j: "j = JObj kvs" by (cases j) auto
  from assms d have lm: "list_or_missing (map_of d ''mainFlashcards'')"
    by (simp add: content_store_def)
  have m: "spread (or_empty (map_of d ''mainFlashcards'')) = Inr (primary j)"
  proof (cases "\<exists>ms. map_of d ''mainFlashcards'' = Some (JArr ms)")
    case True
    with d show ?thesis by (auto simp: or_empty_def primary_def)
  next
    case False
    with lm have "\<not> truthy (map_of d ''mainFlashcards'')"
      by (auto simp: list_or_missing_def split: option.splits json.splits)
    with False d show ?thesis
      by (auto simp: or_empty_def primary_def split: option.splits json.splits)
  qed
  have c: "(\<exists>cs. map_of d ''chapterCollections'' = Some (JArr cs) \<and> list_all has_flashcards cs
           \<and> sub_collections j = map flashcards_of cs)
     \<or> ((\<forall>cs. map_of d ''chapterCollections'' \<noteq> Some (JArr cs)) \<and> sub_collections j = [])"
  proof (cases "\<exists>cs. map_of d ''chapterCollections'' = Some (JArr cs)")
    case True
    with assms d show ?thesis
      by (auto simp: content_store_def sub_collections_def)
  next
    case False
    with d show ?thesis
      by (auto simp: sub_collections_def split: option.splits json.splits)
  qed
  from j d m c that show thesis by simp
qed

lemma flashcards_of_set:
  "has_flashcards c \<Longrightarrow> flashcards_of (set_prop c ''flashcards'' (JArr g)) = g"
  by (cases c) (auto simp: has_flashcards_def flashcards_of_def update_conv')

lemma flashcards_of_zip:
  "list_all has_flashcards cs \<Longrightarrow> length gs = length cs \<Longrightarrow>
   map flashcards_of (map (\<lambda>(c, g). set_prop c ''flashcards'' (JArr g)) (zip cs gs)) = gs"
proof (induction cs arbitrary: gs)
  case Nil
  then show ?case by simp
next
  case (Cons c cs)
  then obtain g gs1 where "gs = g # gs1" by (cases gs) auto
  with Cons show ?case by (simp add: flashcards_of_set)
qed

lemma chapterCards_of_store:
  assumes "content_store j" and "get j ''data'' = Some (JObj d)"
  shows "chapterCards_of (Some (JObj d)) = Inr (concat (sub_collections j))"
proof -
  from assms(1) obtain kvs d' where j: "j = JObj kvs" and d': "map_of kvs ''data'' = Some (JObj d')"
    and c: "(\<exists>cs. map_of d' ''chapterCollections'' = Some (JArr cs) \<and> list_all has_flashcards cs
           \<and> sub_collections j = map flashcards_of cs)
     \<or> ((\<forall>cs. map_of d' ''chapterCollections'' \<noteq> Some (JArr cs)) \<and> sub_collections j = [])"
    by (rule content_storeD)
  from j d' assms(2) have dd: "d' = d" by simp
  from c show ?thesis
  proof
    assume "\<exists>cs. map_of d' ''chapterCollections'' = Some (JArr cs) \<and> list_all has_flashcards cs
           \<and> sub_collections j = map flashcards_of cs"
    then obtain cs where "map_of d' ''chapterCollections'' = Some (JArr cs)"
      "list_all has_flashcards cs" "sub_collections j = map flashcards_of cs" by blast
    with dd collect_shape[of cs] show ?thesis by (simp add: chapterCards_of_def)
  next
    assume "(\<forall>cs. map_of d' ''chapterCollections'' \<noteq> Some (JArr cs)) \<and> sub_collections j = []"
    with dd show ?thesis
      by (auto simp: chapterCards_of_def split: option.splits json.splits)
  qed
qed

lemma transform_unfold:
  assumes "content_store j"
  shows "transform j =
     (case fixCards (primary j @ concat (sub_collections j)) zero_counters of
        Inl e \<Rightarrow> Inl e
      | Inr (cards, cnt) \<Rightarrow>
          (case put_back j (length (primary j)) cards of
             Inl e \<Rightarrow> Inl e
           | Inr out \<Rightarrow> Inr (out, summary_of (length cards) cnt)))"
proof -
  from assms obtain kvs d where j: "j = JObj kvs" and d: "map_of kvs ''data'' = Some (JObj d)"
    and sp: "spread (or_empty (map_of d ''mainFlashcards'')) = Inr (primary j)"
    by (rule content_storeD)
  from j d have gd: "get j ''data'' = Some (JObj d)" by simp
  note cc = chapterCards_of_store[OF assms gd]
  have nn: "j \<noteq> JNull" using j by simp
  show ?thesis
    unfolding transform_def using nn gd cc sp
    by (simp add: Let_def)
qed

lemma put_back_shape:
  assumes cs: "content_store j" and lm: "length ms' = length (primary j)"
    and lg: "map length gs' = map length (sub_collections j)"
  shows "\<exists>out. put_back j (length (primary j)) (ms' @ concat gs') = Inr out \<and>
           primary out = ms' \<and> sub_collections out = gs'"
proof -
  from cs obtain kvs d where j: "j = JObj kvs" and d: "map_of kvs ''data'' = Some (JObj d)"
    and c: "(\<exists>cs. map_of d ''chapterCollections'' = Some (JArr cs) \<and> list_all has_flashcards cs
           \<and> sub_collections j = map flashcards_of cs)
     \<or> ((\<forall>cs. map_of d ''chapterCollections'' \<noteq> Some (JArr cs)) \<and> sub_collections j = [])"
    by (rule content_storeD)
  let ?d1 = "AList.update ''mainFlashcards'' (JArr ms') d"
  have c1: "map_of ?d1 ''chapterCollections'' = map_of d ''chapterCollections''"
    by (simp add: update_conv')
  have tk: "take (length (primary j)) (ms' @ concat gs') = ms'"
    using lm by simp
  from c show ?thesis
  proof
    assume "\<exists>cs. map_of d ''chapterCollections'' = Some (JArr cs) \<and> list_all has_flashcards cs
           \<and> sub_collections j = map flashcards_of cs"
    then obtain cs where cc: "map_of d ''chapterCollections'' = Some (JArr cs)"
      and h: "list_all has_flashcards cs" and sc: "sub_collections j = map flashcards_of cs"
      by blast
    let ?colls = "map (\<lambda>(c, g). set_prop c ''flashcards'' (JArr g)) (zip cs gs')"
    let ?out = "set_prop j ''data'' (JObj (AList.update ''chapterCollections'' (JArr ?colls) ?d1))"
    from lg sc have lens: "map length gs' = map (\<lambda>c. length (flashcards_of c)) cs"
      by (simp add: comp_def)
    then have len: "length gs' = length cs"
      by (metis length_map)
    have rb: "rebuild (ms' @ concat gs') (Num (int (length ms'))) cs = Inr ?colls"
      by (rule rebuild_groups[OF h lens])
    have "put_back j (length (primary j)) (ms' @ concat gs') = Inr ?out"
      unfolding put_back_def Let_def tk using j d c1 cc rb lm by simp
    moreover have "primary ?out = ms'"
      using j by (simp add: primary_def update_conv')
    moreover have "sub_collections ?out = gs'"
      using j flashcards_of_zip[OF h len] by (simp add: sub_collections_def update_conv')
    ultimately show ?thesis by blast
  next
    assume n: "(\<forall>cs. map_of d ''chapterCollections'' \<noteq> Some (JArr cs)) \<and> sub_collections j = []"
    let ?out = "set_prop j ''data'' (JObj ?d1)"
    from n lg have g0: "gs' = []" by simp
    have "put_back j (length (primary j)) (ms' @ concat gs') = Inr ?out"
      unfolding put_back_def Let_def tk using j d c1 n
      by (auto split: option.splits json.splits)
    moreover have "primary ?out = ms'"
      using j by (simp add: primary_def update_conv')
    moreover have "sub_collections ?out = gs'"
      using j c1 n g0 by (auto simp: sub_collections_def update_conv' split: option.splits json.splits)
    ultimately show ?thesis by blast
  qed
qed

lemma transform_groups:
  assumes cs: "content_store j" and t: "transform j = Inr (j', s)"
  shows "map (map other_fields) (groups j') = map (map other_fields) (groups j)
       \<and> totalCards s = length (concat (groups j))"
proof -
  from t transform_unfold[OF cs] obtain cards cnt where
    f: "fixCards (primary j @ concat (sub_collections j)) zero_counters = Inr (cards, cnt)"
    and pb: "put_back j (length (primary j)) cards = Inr j'"
    and s: "s = summary_of (length cards) cnt"
    by (auto split: sum.splits prod.splits)
  from f obtain ms' c1 rest where
    fm: "fixCards (primary j) zero_counters = Inr (ms', c1)"
    and fr: "fixCards (concat (sub_collections j)) c1 = Inr (rest, cnt)"
    and cards: "cards = ms' @ rest"
    by (auto simp: fixCards_append split: sum.splits prod.splits)
  from fixCards_concat[OF fr] obtain gs' where rest: "rest = concat gs'"
    and og: "map (map other_fields) gs' = map (map other_fields) (sub_collections j)" by blast
  from fixCards_other_fields[OF fm] have om: "map other_fields ms' = map other_fields (primary j)" .
  from om have lm: "length ms' = length (primary j)" by (metis length_map)
  have lg: "map length gs' = map length (sub_collections j)"
  proof -
    have "map length (map (map other_fields) gs') = map length (map (map other_fields) (sub_collections j))"
      using og by simp
    then show ?thesis by (simp add: comp_def)
  qed
  from put_back_shape[OF cs lm lg] pb cards rest
  have "primary j' = ms'" "sub_collections j' = gs'" by auto
  with om og have "map (map other_fields) (groups j') = map (map other_fields) (groups j)"
    by (simp add: groups_def)
  moreover have "length cards = length (concat (groups j))"
    using fixCards_length[OF f] by (simp add: groups_def)
  ultimately show ?thesis using s by (simp add: summary_of_def)
qed

lemma is_FlashcardDataD:
  assumes "is_FlashcardData c"
  obtains kvs q a d i where "c = JObj kvs" "map_of kvs ''question'' = Some (JStr q)"
    "map_of kvs ''answer'' = Some (JStr a)" "map_of kvs ''difficulty'' = Some (JStr d)"
    "map_of kvs ''chapterNumber'' = None \<or> (\<exists>n. map_of kvs ''chapterNumber'' = Some (JNum n))"
    "map_of kvs ''id'' = Some (JStr i)"
proof -
  from assms obtain kvs where c: "c = JObj kvs"
    by (cases c) (auto simp: is_FlashcardData_def)
  from assms c obtain q a d i where "map_of kvs ''question'' = Some (JStr q)"
    "map_of kvs ''answer'' = Some (JStr a)" "map_of kvs ''difficulty'' = Some (JStr d)"
    "map_of kvs ''id'' = Some (JStr i)"
    by (auto simp: is_FlashcardData_def is_string_def split: option.splits json.splits)
  moreover from assms c
  have "map_of kvs ''chapterNumber'' = None \<or> (\<exists>n. map_of kvs ''chapterNumber'' = Some (JNum n))"
    by (auto simp: is_FlashcardData_def split: option.splits json.splits)
  ultimately show thesis using c that by blast
qed

lemma generateDefaultTags_FlashcardData:
  assumes "is_FlashcardData c"
  shows "\<exists>ts. generateDefaultTags c = Inr ts"
proof -
  from assms obtain kvs q a d where c: "c = JObj kvs" and q: "map_of kvs ''question'' = Some (JStr q)"
    and a: "map_of kvs ''answer'' = Some (JStr a)" and d: "map_of kvs ''difficulty'' = Some (JStr d)"
    and n: "map_of kvs ''chapterNumber'' = None \<or> (\<exists>n. map_of kvs ''chapterNumber'' = Some (JNum n))"
    by (rule is_FlashcardDataD)
  have "\<exists>t1. chapter_tag c = Inr t1"
  proof (cases "map_of kvs ''chapterNumber''")
    case None
    with c show ?thesis by (simp add: chapter_tag_def)
  next
    case (Some v)
    with n obtain m where "map_of kvs ''chapterNumber'' = Some (JNum m)" by auto
    with c show ?thesis by (simp add: chapter_tag_def)
  qed
  then obtain t1 where t1: "chapter_tag c = Inr t1" by blast
  have "\<exists>t3. difficulty_tag c = Inr t3"
    using c d by (simp add: difficulty_tag_def)
  then obtain t3 where t3: "difficulty_tag c = Inr t3" by blast
  have "\<exists>content. card_content c = Inr content"
    using c q a by (simp add: card_content_def)
  then obtain content where ct: "card_content c = Inr content" by blast
  from t1 t3 ct show ?thesis
    by (simp add: generateDefaultTags_def)
qed

lemma strip_field_string:
  "get c k = Some (JStr t) \<Longrightarrow> get c ''id'' = Some (JStr i) \<Longrightarrow>
   \<exists>c' b. strip_field k c = Inr (c', b)"
  by (auto simp: strip_field_def Let_def)

lemma fixCard_FlashcardData:
  assumes "is_FlashcardData c"
  shows "\<exists>c' cnt'. fixCard c cnt = Inr (c', cnt')"
proof -
  from assms obtain kvs q a d i where c: "c = JObj kvs"
    and q: "map_of kvs ''question'' = Some (JStr q)"
    and a: "map_of kvs ''answer'' = Some (JStr a)"
    and "map_of kvs ''difficulty'' = Some (JStr d)"
    and "map_of kvs ''chapterNumber'' = None \<or> (\<exists>n. map_of kvs ''chapterNumber'' = Some (JNum n))"
    and i: "map_of kvs ''id'' = Some (JStr i)"
    by (rule is_FlashcardDataD)
  have "\<exists>c1 tagged. backfill c = Inr (c1, tagged) \<and>
          (c1 = c \<or> (\<exists>ts. c1 = set_prop c ''tags'' (JArr ts)))"
  proof (cases "tags_missing c")
    case True
    from generateDefaultTags_FlashcardData[OF assms] obtain ts where
      "generateDefaultTags c = Inr ts" by blast
    with True show ?thesis by (auto simp: backfill_def)
  next
    case False
    then show ?thesis by (auto simp: backfill_def)
  qed
  then obtain c1 tagged where
    b: "backfill c = Inr (c1, tagged)" and c1: "c1 = c \<or> (\<exists>ts. c1 = set_prop c ''tags'' (JArr ts))"
    by blast
  from c1 c q a i have q1: "get c1 ''question'' = Some (JStr q)"
    and a1: "get c1 ''answer'' = Some (JStr a)" and i1: "get c1 ''id'' = Some (JStr i)"
    by (auto simp: update_conv')
  from strip_field_string[OF q1 i1] obtain c2 qch where
    s1: "strip_field ''question'' c1 = Inr (c2, qch)" by blast
  from strip_field_other[OF s1, of "''answer''"] a1 have a2: "get c2 ''answer'' = Some (JStr a)"
    by simp
  from strip_field_other[OF s1, of "''id''"] i1 have i2: "get c2 ''id'' = Some (JStr i)"
    by simp
  from strip_field_string[OF a2 i2] obtain c3 ach where
    s2: "strip_field ''answer'' c2 = Inr (c3, ach)" by blast
  from c b s1 s2 show ?thesis by (simp add: fixCard_def)
qed

lemma fixCards_FlashcardData:
  "list_all is_FlashcardData cs \<Longrightarrow> \<exists>cs' cnt'. fixCards cs cnt = Inr (cs', cnt')"
proof (induction cs arbitrary: cnt)
  case Nil
  then show ?case by simp
next
  case (Cons c cs)
  from Cons.prems have "is_FlashcardData c" and r: "list_all is_FlashcardData cs" by simp_all
  from fixCard_FlashcardData[OF this(1)] obtain c' cnt1 where h: "fixCard c cnt = Inr (c', cnt1)"
    by blast
  from Cons.IH[OF r, of cnt1] obtain cs' cnt' where "fixCards cs cnt1 = Inr (cs', cnt')" by blast
  with h show ?case by simp
qed

lemma transform_succeeds:
  assumes cs: "content_store j" and ty: "list_all (list_all is_FlashcardData) (groups j)"
  shows "\<exists>j' s. transform j = Inr (j', s)"
proof -
  from ty have "list_all is_FlashcardData (primary j @ concat (sub_collections j))"
    by (auto simp: groups_def list_all_iff)
  from fixCards_FlashcardData[OF this] obtain cards cnt where
    f: "fixCards (primary j @ concat (sub_collections j)) zero_counters = Inr (cards, cnt)" by blast
  then obtain ms' c1 rest where
    fm: "fixCards (primary j) zero_counters = Inr (ms', c1)"
    and fr: "fixCards (concat (sub_collections j)) c1 = Inr (rest, cnt)"
    and cards: "cards = ms' @ rest"
    by (auto simp: fixCards_append split: sum.splits prod.splits)
  from fixCards_concat[OF fr] obtain gs' where rest: "rest = concat gs'"
    and og: "map (map other_fields) gs' = map (map other_fields) (sub_collections j)" by blast
  have lm: "length ms' = length (primary j)" by (rule fixCards_length[OF fm])
  have lg: "map length gs' = map length (sub_collections j)"
  proof -
    have "map length (map (map other_fields) gs') = map length (map (map other_fields) (sub_collections j))"
      using og by simp
    then show ?thesis by (simp add: comp_def)
  qed
  from put_back_shape[OF cs lm lg] cards rest obtain out where
    "put_back j (length (primary j)) cards = Inr out" by auto
  with f transform_unfold[OF cs] show ?thesis by simp
qed

text \<open>
  Claim C1. On a content store, a run that completes gives a store with the same groups:
  the same number of groups, each of its original size, and at every position of every
  group a card with the same fields, other than \<open>question\<close>, \<open>answer\<close> and \<open>tags\<close>, as
  the card that stood there (its \<open>id\<close> among them, so the order is kept). The total
  number of cards is unchanged and is the number the summary prints. When moreover every
  card is a \<open>FlashcardData\<close>, the run does complete.
\<close>

theorem normalization_keeps_groups_and_order:
  assumes "content_store j"
  shows "(list_all (list_all is_FlashcardData) (groups j) \<longrightarrow> (\<exists>j' s. transform j = Inr (j', s)))
     \<and> (\<forall>j' s. transform j = Inr (j', s) \<longrightarrow>
           map (map other_fields) (groups j') = map (map other_fields) (groups j)
         \<and> map length (groups j') = map length (groups j)
         \<and> sum_list (map length (groups j')) = sum_list (map length (groups j))
         \<and> totalCards s = sum_list (map length (groups j)))"
proof -
  have "map (map other_fields) (groups j') = map (map other_fields) (groups j)
         \<and> map length (groups j') = map length (groups j)
         \<and> sum_list (map length (groups j')) = sum_list (map length (groups j))
         \<and> totalCards s = sum_list (map length (groups j))"
    if t: "transform j = Inr (j', s)" for j' s
  proof -
    from transform_groups[OF assms t]
    have o: "map (map other_fields) (groups j') = map (map other_fields) (groups j)"
      and n: "totalCards s = length (concat (groups j))" by simp_all
    have "map length (map (map other_fields) (groups j')) = map length (map (map other_fields) (groups j))"
      using o by simp
    then have l: "map length (groups j') = map length (groups j)" by (simp add: comp_def)
    from o l n show ?thesis by (simp add: length_concat)
  qed
  with transform_succeeds[OF assms] show ?thesis by blast
qed

theorem normalization_keeps_groups_and_order_witness:
  "content_store
    (JObj [(''data'', JObj
            [(''mainFlashcards'', JArr
               [JObj [(''id'', JStr ''m1''), (''question'', JStr ''What is <b>shock</b>?''),
                      (''answer'', JStr ''Poor perfusion''), (''difficulty'', JStr ''Basic''),
                      (''type'', JStr ''definition''), (''tags'', JArr [])],
                JObj [(''id'', JStr ''m2''), (''question'', JStr ''Q2''), (''answer'', JStr ''A2''),
                      (''difficulty'', JStr ''Advanced''), (''type'', JStr ''application''),
                      (''tags'', JArr [JStr ''x''])]]),
             (''chapterCollections'', JArr
               [JObj [(''chapterNumber'', JNum 1),
                      (''flashcards'', JArr
                         [JObj [(''id'', JStr ''k1''), (''question'', JStr ''Q3''), (''answer'', JStr ''A3''),
                                (''difficulty'', JStr ''Basic''), (''type'', JStr ''definition'')],
                          JObj [(''id'', JStr ''k2''), (''question'', JStr ''Q4''),
                                (''answer'', JStr ''<i>A4</i>''), (''difficulty'', JStr ''Basic''),
                                (''type'', JStr ''scenario''), (''tags'', JNull)],
                          JObj [(''id'', JStr ''k3''), (''question'', JStr ''Q5''), (''answer'', JStr ''A5''),
                                (''difficulty'', JStr ''Intermediate''), (''type'', JStr ''recognition''),
                                (''tags'', JArr [JStr ''y''])]])]])])])
   \<and> list_all (list_all is_FlashcardData) (groups
    (JObj [(''data'', JObj
            [(''mainFlashcards'', JArr
               [JObj [(''id'', JStr ''m1''), (''question'', JStr ''What is <b>shock</b>?''),
                      (''answer'', JStr ''Poor perfusion''), (''difficulty'', JStr ''Basic''),
                      (''type'', JStr ''definition''), (''tags'', JArr [])],
                JObj [(''id'', JStr ''m2''), (''question'', JStr ''Q2''), (''answer'', JStr ''A2''),
                      (''difficulty'', JStr ''Advanced''), (''type'', JStr ''application''),
                      (''tags'', JArr [JStr ''x''])]]),
             (''chapterCollections'', JArr
               [JObj [(''chapterNumber'', JNum 1),
                      (''flashcards'', JArr
                         [JObj [(''id'', JStr ''k1''), (''question'', JStr ''Q3''), (''answer'', JStr ''A3''),
                                (''difficulty'', JStr ''Basic''), (''type'', JStr ''definition'')],
                          JObj [(''id'', JStr ''k2''), (''question'', JStr ''Q4''),
                                (''answer'', JStr ''<i>A4</i>''), (''difficulty'', JStr ''Basic''),
                                (''type'', JStr ''scenario''), (''tags'', JNull)],
                          JObj [(''id'', JStr ''k3''), (''question'', JStr ''Q5''), (''answer'', JStr ''A5''),
                                (''difficulty'', JStr ''Intermediate''), (''type'', JStr ''recognition''),
                                (''tags'', JArr [JStr ''y''])]])]])])]))
   \<and> (\<exists>j' s. transform
    (JObj [(''data'', JObj
            [(''mainFlashcards'', JArr
               [JObj [(''id'', JStr ''m1''), (''question'', JStr ''What is <b>shock</b>?''),
                      (''answer'', JStr ''Poor perfusion''), (''difficulty'', JStr ''Basic''),
                      (''type'', JStr ''definition''), (''tags'', JArr [])],
                JObj [(''id'', JStr ''m2''), (''question'', JStr ''Q2''), (''answer'', JStr ''A2''),
                      (''difficulty'', JStr ''Advanced''), (''type'', JStr ''application''),
                      (''tags'', JArr [JStr ''x''])]]),
             (''chapterCollections'', JArr
               [JObj [(''chapterNumber'', JNum 1),
                      (''flashcards'', JArr
                         [JObj [(''id'', JStr ''k1''), (''question'', JStr ''Q3''), (''answer'', JStr ''A3''),
                                (''difficulty'', JStr ''Basic''), (''type'', JStr ''definition'')],
                          JObj [(''id'', JStr ''k2''), (''question'', JStr ''Q4''),
                                (''answer'', JStr ''<i>A4</i>''), (''difficulty'', JStr ''Basic''),
                                (''type'', JStr ''scenario''), (''tags'', JNull)],
                          JObj [(''id'', JStr ''k3''), (''question'', JStr ''Q5''), (''answer'', JStr ''A5''),
                                (''difficulty'', JStr ''Intermediate''), (''type'', JStr ''recognition''),
                                (''tags'', JArr [JStr ''y''])]])]])])]) = Inr (j', s)
        \<and> map length (groups j') = [2, 3] \<and> totalCards s = 5
        \<and> map (map other_fields) (groups j') = map (map other_fields) (groups
    (JObj [(''data'', JObj
            [(''mainFlashcards'', JArr
               [JObj [(''id'', JStr ''m1''), (''question'', JStr ''What is <b>shock</b>?''),
                      (''answer'', JStr ''Poor perfusion''), (''difficulty'', JStr ''Basic''),
                      (''type'', JStr ''definition''), (''tags'', JArr [])],
                JObj [(''id'', JStr ''m2''), (''question'', JStr ''Q2''), (''answer'', JStr ''A2''),
                      (''difficulty'', JStr ''Advanced''), (''type'', JStr ''application''),
                      (''tags'', JArr [JStr ''x''])]]),
             (''chapterCollections'', JArr
               [JObj [(''chapterNumber'', JNum 1),
                      (''flashcards'', JArr
                         [JObj [(''id'', JStr ''k1''), (''question'', JStr ''Q3''), (''answer'', JStr ''A3''),
                                (''difficulty'', JStr ''Basic''), (''type'', JStr ''definition'')],
                          JObj [(''id'', JStr ''k2''), (''question'', JStr ''Q4''),
                                (''answer'', JStr ''<i>A4</i>''), (''difficulty'', JStr ''Basic''),
                                (''type'', JStr ''scenario''), (''tags'', JNull)],
                          JObj [(''id'', JStr ''k3''), (''question'', JStr ''Q5''), (''answer'', JStr ''A5''),
                                (''difficulty'', JStr ''Intermediate''), (''type'', JStr ''recognition''),
                                (''tags'', JArr [JStr ''y''])]])]])])])))"
proof -
  let ?J = "(JObj [(''data'', JObj
        [(''mainFlashcards'', JArr
           [JObj [(''id'', JStr ''m1''), (''question'', JStr ''What is <b>shock</b>?''),
                  (''answer'', JStr ''Poor perfusion''), (''difficulty'', JStr ''Basic''),
                  (''type'', JStr ''definition''), (''tags'', JArr [])],
            JObj [(''id'', JStr ''m2''), (''question'', JStr ''Q2''), (''answer'', JStr ''A2''),
                  (''difficulty'', JStr ''Advanced''), (''type'', JStr ''application''),
                  (''tags'', JArr [JStr ''x''])]]),
         (''chapterCollections'', JArr
           [JObj [(''chapterNumber'', JNum 1),
                  (''flashcards'', JArr
                     [JObj [(''id'', JStr ''k1''), (''question'', JStr ''Q3''), (''answer'', JStr ''A3''),
                            (''difficulty'', JStr ''Basic''), (''type'', JStr ''definition'')],
                      JObj [(''id'', JStr ''k2''), (''question'', JStr ''Q4''),
                            (''answer'', JStr ''<i>A4</i>''), (''difficulty'', JStr ''Basic''),
                            (''type'', JStr ''scenario''), (''tags'', JNull)],
                      JObj [(''id'', JStr ''k3''), (''question'', JStr ''Q5''), (''answer'', JStr ''A5''),
                            (''difficulty'', JStr ''Intermediate''), (''type'', JStr ''recognition''),
                            (''tags'', JArr [JStr ''y''])]])]])])])"
  have cs: "content_store ?J"
    by code_simp
  have ty: "list_all (list_all is_FlashcardData) (groups ?J)"
    by code_simp
  have len: "map length (groups ?J) = [2, 3]"
    by code_simp
  from normalization_keeps_groups_and_order[OF cs] ty obtain j' s where
    t: "transform ?J = Inr (j', s)" by blast
  from normalization_keeps_groups_and_order[OF cs] t
  have k: "map (map other_fields) (groups j') = map (map other_fields) (groups ?J)
      \<and> map length (groups j') = map length (groups ?J)
      \<and> sum_list (map length (groups j')) = sum_list (map length (groups ?J))
      \<and> totalCards s = sum_list (map length (groups ?J))"
    by blast
  from k have k1: "map (map other_fields) (groups j') = map (map other_fields) (groups ?J)" ..
  from k len have k2: "map length (groups j') = [2, 3]" by simp
  from k len have k3: "totalCards s = 5" by simp
  have "\<exists>j' s. transform ?J = Inr (j', s)
        \<and> map length (groups j') = [2, 3] \<and> totalCards s = 5
        \<and> map (map other_fields) (groups j') = map (map other_fields) (groups ?J)"
    by (rule exI[of _ j'], rule exI[of _ s]) (intro conjI t k1 k2 k3)
  with cs ty show ?thesis by (intro conjI)
qed

subsection \<open>The second run\<close>

text \<open>
  Putting the same cards back into the store that the first run wrote gives that store
  again, and a card that is settled and has tags goes through the loop unchanged and
  uncounted. So the second run changes nothing and reports zero changes whenever the
  first run left every card with a non-empty \<open>tags\<close> list.
\<close>

lemma update_same: "map_of al k = Some v \<Longrightarrow> AList.update k v al = al"
  by (induction al) (auto split: if_splits)

lemma set_prop_same: "get c k = Some v \<Longrightarrow> set_prop c k v = c"
  by (cases c) (simp_all add: update_same)

lemma zip_set_again:
  "length gs = length cs \<Longrightarrow>
   map (\<lambda>(c, g). set_prop c k (JArr g)) (zip (map (\<lambda>(c, g). set_prop c k (JArr g)) (zip cs gs)) gs)
     = map (\<lambda>(c, g). set_prop c k (JArr g)) (zip cs gs)"
proof (induction cs arbitrary: gs)
  case Nil
  then show ?case by simp
next
  case (Cons c cs)
  then obtain g gs1 where "gs = g # gs1" by (cases gs) auto
  with Cons show ?case by (simp add: set_prop_twice)
qed

lemma has_flashcards_set: "has_flashcards c \<Longrightarrow> has_flashcards (set_prop c ''flashcards'' (JArr g))"
  by (cases c) (auto simp: has_flashcards_def update_conv')

lemma has_flashcards_zip:
  "list_all has_flashcards cs \<Longrightarrow>
   list_all has_flashcards (map (\<lambda>(c, g). set_prop c ''flashcards'' (JArr g)) (zip cs gs))"
  by (induction cs arbitrary: gs) (auto simp: has_flashcards_set split: list.splits simp: zip_Cons1)

lemma put_back_again:
  assumes cs: "content_store j" and lm: "length ms' = length (primary j)"
    and lg: "map length gs' = map length (sub_collections j)"
    and pb: "put_back j (length (primary j)) (ms' @ concat gs') = Inr out"
  shows "content_store out \<and> put_back out (length ms') (ms' @ concat gs') = Inr out"
proof -
  from cs obtain kvs d where j: "j = JObj kvs" and d: "map_of kvs ''data'' = Some (JObj d)"
    and c: "(\<exists>cs. map_of d ''chapterCollections'' = Some (JArr cs) \<and> list_all has_flashcards cs
           \<and> sub_collections j = map flashcards_of cs)
     \<or> ((\<forall>cs. map_of d ''chapterCollections'' \<noteq> Some (JArr cs)) \<and> sub_collections j = [])"
    by (rule content_storeD)
  let ?d1 = "AList.update ''mainFlashcards'' (JArr ms') d"
  have c1: "map_of ?d1 ''chapterCollections'' = map_of d ''chapterCollections''"
    by (simp add: update_conv')
  have m1: "map_of ?d1 ''mainFlashcards'' = Some (JArr ms')"
    by (simp add: update_conv')
  have tk: "take (length (primary j)) (ms' @ concat gs') = ms'"
    using lm by simp
  have tk': "take (length ms') (ms' @ concat gs') = ms'"
    by simp
  from c show ?thesis
  proof
    assume "\<exists>cs. map_of d ''chapterCollections'' = Some (JArr cs) \<and> list_all has_flashcards cs
           \<and> sub_collections j = map flashcards_of cs"
    then obtain cs where cc: "map_of d ''chapterCollections'' = Some (JArr cs)"
      and h: "list_all has_flashcards cs" and sc: "sub_collections j = map flashcards_of cs"
      by blast
    let ?colls = "map (\<lambda>(c, g). set_prop c ''flashcards'' (JArr g)) (zip cs gs')"
    let ?d2 = "AList.update ''chapterCollections'' (JArr ?colls) ?d1"
    let ?out = "set_prop j ''data'' (JObj ?d2)"
    from lg sc have lens: "map length gs' = map (\<lambda>c. length (flashcards_of c)) cs"
      by (simp add: comp_def)
    then have len: "length gs' = length cs"
      by (metis length_map)
    have rb: "rebuild (ms' @ concat gs') (Num (int (length ms'))) cs = Inr ?colls"
      by (rule rebuild_groups[OF h lens])
    have "put_back j (length (primary j)) (ms' @ concat gs') = Inr ?out"
      unfolding put_back_def Let_def tk using j d c1 cc rb lm by simp
    with pb have out: "out = ?out" by simp
    have h': "list_all has_flashcards ?colls" by (rule has_flashcards_zip[OF h])
    have fl: "map flashcards_of ?colls = gs'" by (rule flashcards_of_zip[OF h len])
    have lens': "map length gs' = map (\<lambda>c. length (flashcards_of c)) ?colls"
    proof -
      have "map (\<lambda>c. length (flashcards_of c)) ?colls = map length (map flashcards_of ?colls)"
        by (simp add: comp_def)
      with fl show ?thesis by simp
    qed
    have rb': "rebuild (ms' @ concat gs') (Num (int (length ms'))) ?colls = Inr ?colls"
      using rebuild_groups[OF h' lens', of ms'] zip_set_again[OF len, of "''flashcards''"] by simp
    have gd: "get ?out ''data'' = Some (JObj ?d2)"
      using j by (simp add: update_conv')
    have m2: "map_of ?d2 ''mainFlashcards'' = Some (JArr ms')"
      by (simp add: update_conv')
    have c2: "map_of ?d2 ''chapterCollections'' = Some (JArr ?colls)"
      by (simp add: update_conv')
    have u1: "AList.update ''mainFlashcards'' (JArr ms') ?d2 = ?d2"
      by (rule update_same[OF m2])
    have u2: "AList.update ''chapterCollections'' (JArr ?colls) ?d2 = ?d2"
      by (rule update_same[OF c2])
    have u3: "set_prop ?out ''data'' (JObj ?d2) = ?out"
      by (rule set_prop_same[OF gd])
    have "content_store ?out"
      unfolding content_store_def using gd m2 c2 h' by (simp add: list_or_missing_def)
    moreover have "put_back ?out (length ms') (ms' @ concat gs') = Inr ?out"
      unfolding put_back_def Let_def tk' using gd u1 u2 u3 c2 rb' by simp
    ultimately show ?thesis using out by simp
  next
    assume n: "(\<forall>cs. map_of d ''chapterCollections'' \<noteq> Some (JArr cs)) \<and> sub_collections j = []"
    let ?out = "set_prop j ''data'' (JObj ?d1)"
    from n lg have g0: "gs' = []" by simp
    have "put_back j (length (primary j)) (ms' @ concat gs') = Inr ?out"
      unfolding put_back_def Let_def tk using j d c1 n
      by (auto split: option.splits json.splits)
    with pb have out: "out = ?out" by simp
    have gd: "get ?out ''data'' = Some (JObj ?d1)"
      using j by (simp add: update_conv')
    have u1: "AList.update ''mainFlashcards'' (JArr ms') ?d1 = ?d1"
      by (rule update_same[OF m1])
    have u3: "set_prop ?out ''data'' (JObj ?d1) = ?out"
      by (rule set_prop_same[OF gd])
    have "content_store ?out"
      unfolding content_store_def using gd m1 c1 n
      by (auto simp: list_or_missing_def split: option.splits json.splits)
    moreover have "put_back ?out (length ms') (ms' @ concat gs') = Inr ?out"
      unfolding put_back_def Let_def tk' using gd u1 u3 c1 n
      by (auto split: option.splits json.splits)
    ultimately show ?thesis using out by simp
  qed
qed

lemma strip_field_clean:
  "strip_field k (JObj kvs) = Inr (c', b) \<Longrightarrow> clean_text (get c' k) \<and> (\<exists>kvs'. c' = JObj kvs')"
  by (auto simp: strip_field_def Let_def clean_text_def update_conv' stripHtmlTags_idem
      split: option.splits json.splits if_splits sum.splits)

lemma backfill_obj: "backfill (JObj kvs) = Inr (c1, b) \<Longrightarrow> \<exists>kvs1. c1 = JObj kvs1"
  by (auto simp: backfill_def split: if_splits sum.splits)

lemma fixCard_settled:
  assumes "fixCard c cnt = Inr (c', cnt')"
  shows "settled c'"
proof -
  from assms obtain kvs where c: "c = JObj kvs" using fixCard_obj by blast
  from assms c obtain c1 tagged c2 qch ach where
    b: "backfill (JObj kvs) = Inr (c1, tagged)"
    and q: "strip_field ''question'' c1 = Inr (c2, qch)"
    and a: "strip_field ''answer'' c2 = Inr (c', ach)"
    by (auto simp: fixCard_def split: sum.splits prod.splits)
  from backfill_obj[OF b] obtain kvs1 where c1: "c1 = JObj kvs1" by blast
  from strip_field_clean[of "''question''" kvs1 c2 qch] q c1
  obtain kvs2 where q2: "clean_text (get c2 ''question'')" and c2: "c2 = JObj kvs2" by blast
  from strip_field_clean[of "''answer''" kvs2 c' ach] a c2
  obtain kvs3 where a3: "clean_text (get c' ''answer'')" and c3: "c' = JObj kvs3" by blast
  from strip_field_other[OF a, of "''question''"] q2 have "clean_text (get c' ''question'')" by simp
  with a3 c3 show ?thesis by (simp add: settled_def)
qed

lemma fixCards_settled:
  "fixCards cs cnt = Inr (cs', cnt') \<Longrightarrow> list_all settled cs'"
  by (induction cs arbitrary: cnt cs')
     (auto split: sum.splits prod.splits dest: fixCard_settled)

lemma strip_field_clean_same:
  "clean_text (get c k) \<Longrightarrow> strip_field k c = Inr (c, False)"
  by (auto simp: strip_field_def clean_text_def Let_def split: option.splits json.splits)

lemma fixCard_fixpoint:
  assumes "settled c" and "has_tags c"
  shows "fixCard c cnt = Inr (c, cnt)"
proof -
  from assms(1) obtain kvs where c: "c = JObj kvs"
    by (cases c) (auto simp: settled_def)
  from assms(2) obtain ts where "get c ''tags'' = Some (JArr ts)" "ts \<noteq> []"
    by (auto simp: has_tags_def split: option.splits json.splits)
  from backfill_keeps_tags[OF this] have b: "backfill c = Inr (c, False)" .
  from assms(1) c have q: "strip_field ''question'' c = Inr (c, False)"
    and a: "strip_field ''answer'' c = Inr (c, False)"
    by (simp_all add: settled_def strip_field_clean_same)
  from c b q a show ?thesis
    by (cases cnt) (simp add: fixCard_def bump_def)
qed

lemma fixCards_fixpoint:
  "list_all settled cs \<Longrightarrow> list_all has_tags cs \<Longrightarrow> fixCards cs cnt = Inr (cs, cnt)"
  by (induction cs) (simp_all add: fixCard_fixpoint)

lemma second_run_changes_nothing:
  assumes cs: "content_store j" and t: "transform j = Inr (j1, s1)"
    and tg: "list_all (list_all has_tags) (groups j1)"
  shows "transform j1 =
     Inr (j1, \<lparr>totalCards = totalCards s1, tagsAdded = 0, htmlRemoved = 0, cardsModified = 0\<rparr>)"
proof -
  from t transform_unfold[OF cs] obtain cards cnt where
    f: "fixCards (primary j @ concat (sub_collections j)) zero_counters = Inr (cards, cnt)"
    and pb: "put_back j (length (primary j)) cards = Inr j1"
    and s: "s1 = summary_of (length cards) cnt"
    by (auto split: sum.splits prod.splits)
  from f obtain ms' c1 rest where
    fm: "fixCards (primary j) zero_counters = Inr (ms', c1)"
    and fr: "fixCards (concat (sub_collections j)) c1 = Inr (rest, cnt)"
    and cards: "cards = ms' @ rest"
    by (auto simp: fixCards_append split: sum.splits prod.splits)
  from fixCards_concat[OF fr] obtain gs' where rest: "rest = concat gs'"
    and og: "map (map other_fields) gs' = map (map other_fields) (sub_collections j)" by blast
  have lm: "length ms' = length (primary j)" by (rule fixCards_length[OF fm])
  have lg: "map length gs' = map length (sub_collections j)"
  proof -
    have "map length (map (map other_fields) gs') = map length (map (map other_fields) (sub_collections j))"
      using og by simp
    then show ?thesis by (simp add: comp_def)
  qed
  from pb cards rest have pb': "put_back j (length (primary j)) (ms' @ concat gs') = Inr j1" by simp
  from put_back_shape[OF cs lm lg] pb' have p1: "primary j1 = ms'" and g1: "sub_collections j1 = gs'"
    by auto
  from put_back_again[OF cs lm lg pb'] have cs1: "content_store j1"
    and again: "put_back j1 (length ms') (ms' @ concat gs') = Inr j1" by simp_all
  from fixCards_settled[OF f] cards rest have st: "list_all settled (ms' @ concat gs')" by simp
  from tg p1 g1 have ht: "list_all has_tags (ms' @ concat gs')"
    by (auto simp: groups_def list_all_iff)
  from fixCards_fixpoint[OF st ht]
  have f1: "fixCards (ms' @ concat gs') zero_counters = Inr (ms' @ concat gs', zero_counters)" .
  from s cards rest have n: "totalCards s1 = length (ms' @ concat gs')"
    by (simp add: summary_of_def)
  from transform_unfold[OF cs1] p1 g1 f1 again n show ?thesis
    by (simp add: summary_of_def zero_counters_def)
qed

subsection \<open>What the summary counts\<close>

text \<open>
  The counter of tags added counts the cards whose tags were missing or empty, and the
  counter of modified cards counts the cards flagged by at least one step. The counter
  of removed markup counts fields, not cards: a card adds one for its question and one
  for its answer.
\<close>

lemma backfill_flag:
  "backfill c = Inr (c1, tagged) \<Longrightarrow> tagged = tags_missing c"
  by (auto simp: backfill_def split: if_splits sum.splits)

lemma backfill_other:
  "backfill c = Inr (c1, tagged) \<Longrightarrow> k \<noteq> ''tags'' \<Longrightarrow> get c1 k = get c k"
  by (auto simp: backfill_def get_set_prop_other split: if_splits sum.splits)

lemma strip_field_flag:
  "strip_field k c = Inr (c', ch) \<Longrightarrow> ch = (\<not> clean_text (get c k))"
  by (auto simp: strip_field_def Let_def clean_text_def
      split: option.splits json.splits if_splits sum.splits)

lemma fixCard_counts:
  assumes "fixCard c cnt = Inr (c', cnt')"
  shows "fixedTagsCount cnt' = fixedTagsCount cnt + (if tags_missing c then 1 else 0)
       \<and> fixedHtmlCount cnt' = fixedHtmlCount cnt + markup_fields c
       \<and> totalChanges cnt' = totalChanges cnt + (if tags_missing c \<or> 0 < markup_fields c then 1 else 0)"
proof -
  from assms obtain c1 tagged c2 qch ach where
    b: "backfill c = Inr (c1, tagged)"
    and q: "strip_field ''question'' c1 = Inr (c2, qch)"
    and a: "strip_field ''answer'' c2 = Inr (c', ach)"
    and n: "cnt' = \<lparr>fixedTagsCount = bump tagged (fixedTagsCount cnt),
                    fixedHtmlCount = bump ach (bump qch (fixedHtmlCount cnt)),
                    totalChanges = bump (tagged \<or> qch \<or> ach) (totalChanges cnt)\<rparr>"
    by (auto simp: fixCard_def split: json.splits sum.splits prod.splits)
  have tg: "tagged = tags_missing c" by (rule backfill_flag[OF b])
  have "qch = (\<not> clean_text (get c1 ''question''))" by (rule strip_field_flag[OF q])
  with backfill_other[OF b, of "''question''"]
  have qc: "qch = (\<not> clean_text (get c ''question''))" by simp
  have "ach = (\<not> clean_text (get c2 ''answer''))" by (rule strip_field_flag[OF a])
  with strip_field_other[OF q, of "''answer''"] backfill_other[OF b, of "''answer''"]
  have ac: "ach = (\<not> clean_text (get c ''answer''))" by simp
  from n tg qc ac show ?thesis
    by (auto simp: bump_def markup_fields_def)
qed

lemma fixCards_counts:
  "fixCards cs cnt = Inr (cs', cnt') \<Longrightarrow>
     fixedTagsCount cnt' = fixedTagsCount cnt + length (filter tags_missing cs)
   \<and> fixedHtmlCount cnt' = fixedHtmlCount cnt + sum_list (map markup_fields cs)
   \<and> totalChanges cnt' = totalChanges cnt
        + length (filter (\<lambda>c. tags_missing c \<or> 0 < markup_fields c) cs)"
proof (induction cs arbitrary: cnt cs')
  case Nil
  then show ?case by simp
next
  case (Cons c cs)
  from Cons.prems obtain c' cnt1 rest where
    h: "fixCard c cnt = Inr (c', cnt1)" and t: "fixCards cs cnt1 = Inr (rest, cnt')"
    by (auto split: sum.splits prod.splits)
  from fixCard_counts[OF h] Cons.IH[OF t] show ?case by simp
qed

subsection \<open>One write, after every step that can throw\<close>

text \<open>
  The steps of the loop print and do nothing else: each one returns what the function
  of the same name without the world computes, and leaves the world with more lines on
  the console and the same disk and the same list of written documents.
\<close>

lemma strip_field_step_lines:
  "\<exists>ls. strip_field_step k crd w = (strip_field k crd, w\<lparr>console := console w @ ls\<rparr>)"
proof (cases "\<exists>t. get crd k = Some (JStr t) \<and> stripHtmlTags t \<noteq> t")
  case True
  then obtain t where t: "get crd k = Some (JStr t)" "stripHtmlTags t \<noteq> t" by blast
  show ?thesis
  proof (cases "template (get crd ''id'')")
    case (Inl e)
    with t have "strip_field_step k crd w = (strip_field k crd, w\<lparr>console := console w @ []\<rparr>)"
      by (simp add: strip_field_step_def strip_field_def Let_def and_then_def lift_def)
    then show ?thesis by blast
  next
    case (Inr i)
    with t have "strip_field_step k crd w
        = (strip_field k crd, w\<lparr>console := console w @ [Removing k i]\<rparr>)"
      by (simp add: strip_field_step_def strip_field_def Let_def and_then_def lift_def
          log_line_def ret_def)
    then show ?thesis by blast
  qed
next
  case False
  then have "strip_field_step k crd w = (strip_field k crd, w\<lparr>console := console w @ []\<rparr>)"
    by (auto simp: strip_field_step_def strip_field_def Let_def ret_def throw_def
        split: option.splits json.splits)
  then show ?thesis by blast
qed

lemma fixCard_step_lines:
  "\<exists>ls. fixCard_step crd cnt w = (fixCard crd cnt, w\<lparr>console := console w @ ls\<rparr>)"
proof (cases crd)
  case (JObj kvs)
  show ?thesis
  proof (cases "backfill crd")
    case (Inl e)
    with JObj have "fixCard_step crd cnt w = (fixCard crd cnt, w\<lparr>console := console w @ []\<rparr>)"
      by (simp add: fixCard_step_def fixCard_def and_then_def lift_def)
    then show ?thesis by blast
  next
    case (Inr r)
    obtain c1 tagged where r: "r = (c1, tagged)" by (cases r)
    from strip_field_step_lines[of "''question''" c1 w] obtain l1 where
      q: "strip_field_step ''question'' c1 w
            = (strip_field ''question'' c1, w\<lparr>console := console w @ l1\<rparr>)" by blast
    show ?thesis
    proof (cases "strip_field ''question'' c1")
      case (Inl e)
      with JObj Inr r q
      have "fixCard_step crd cnt w = (fixCard crd cnt, w\<lparr>console := console w @ l1\<rparr>)"
        by (simp add: fixCard_step_def fixCard_def and_then_def lift_def)
      then show ?thesis by blast
    next
      case qr: (Inr r2)
      obtain c2 qch where r2: "r2 = (c2, qch)" by (cases r2)
      let ?w1 = "w\<lparr>console := console w @ l1\<rparr>"
      from strip_field_step_lines[of "''answer''" c2 ?w1] obtain l2 where
        a: "strip_field_step ''answer'' c2 ?w1
              = (strip_field ''answer'' c2, w\<lparr>console := console w @ (l1 @ l2)\<rparr>)" by auto
      from JObj Inr r q qr r2 a
      have "fixCard_step crd cnt w = (fixCard crd cnt, w\<lparr>console := console w @ (l1 @ l2)\<rparr>)"
        by (auto simp: fixCard_step_def fixCard_def and_then_def lift_def ret_def
            split: sum.splits)
      then show ?thesis by blast
    qed
  qed
qed (auto simp: fixCard_step_def fixCard_def throw_def intro: exI[of _ "[]"])

lemma fixCards_step_lines:
  "\<exists>ls. fixCards_step cards cnt w = (fixCards cards cnt, w\<lparr>console := console w @ ls\<rparr>)"
proof (induction cards arbitrary: cnt w)
  case Nil
  have "fixCards_step [] cnt w = (fixCards [] cnt, w\<lparr>console := console w @ []\<rparr>)"
    by (simp add: ret_def)
  then show ?case by blast
next
  case (Cons c cs)
  from fixCard_step_lines[of c cnt w] obtain l1 where
    h: "fixCard_step c cnt w = (fixCard c cnt, w\<lparr>console := console w @ l1\<rparr>)" by blast
  show ?case
  proof (cases "fixCard c cnt")
    case (Inl e)
    with h have "fixCards_step (c # cs) cnt w
        = (fixCards (c # cs) cnt, w\<lparr>console := console w @ l1\<rparr>)"
      by (simp add: and_then_def)
    then show ?thesis by blast
  next
    case (Inr r)
    obtain c' cnt' where r: "r = (c', cnt')" by (cases r)
    let ?w1 = "w\<lparr>console := console w @ l1\<rparr>"
    from Cons.IH[of cnt' ?w1] obtain l2 where
      t: "fixCards_step cs cnt' ?w1 = (fixCards cs cnt', w\<lparr>console := console w @ (l1 @ l2)\<rparr>)"
      by auto
    from h Inr r t have "fixCards_step (c # cs) cnt w
        = (fixCards (c # cs) cnt, w\<lparr>console := console w @ (l1 @ l2)\<rparr>)"
      by (auto simp: and_then_def ret_def split: sum.splits)
    then show ?thesis by blast
  qed
qed

lemma and_then_alt:
  "and_then m f w = (case fst (m w) of Inl e \<Rightarrow> (Inl e, snd (m w)) | Inr x \<Rightarrow> f x (snd (m w)))"
  by (simp add: and_then_def split: prod.splits sum.splits)

lemma fixCards_step_value [simp]: "fst (fixCards_step cards cnt w) = fixCards cards cnt"
  using fixCards_step_lines[of cards cnt w] by auto

lemma fixCards_step_disk [simp]: "disk (snd (fixCards_step cards cnt w)) = disk w"
  using fixCards_step_lines[of cards cnt w] by auto

lemma fixCards_step_written [simp]: "written (snd (fixCards_step cards cnt w)) = written w"
  using fixCards_step_lines[of cards cnt w] by auto

text \<open>
  The \<open>try\<close> block computes what \<open>transform\<close> computes. When it throws, the disk and the
  list of written documents are as they were. When it returns, it has written the
  transformed document, once, and the disk holds that document.
\<close>

lemma try_block_throws:
  assumes "try_block w = (Inl e, w')"
  shows "disk w' = disk w \<and> written w' = written w \<and>
         (load (disk w) = Inl e \<or> (\<exists>j. load (disk w) = Inr j \<and> transform j = Inl e))"
  using assms unfolding try_block_def
  by (auto simp: and_then_alt log_line_def readStore_def lift_def writeFileSync_def
      transform_def Let_def split: sum.splits if_splits prod.splits)


















text \<open>
  On a content store whose cards are as the interface declares them the run has an
  outcome, and it is the exit with status 0.
\<close>

lemma run_on_declared_store:
  assumes d: "disk w = Document j" and cs: "content_store j"
    and ty: "list_all (list_all is_FlashcardData) (groups j)"
  shows "\<exists>w'. run_script w = Some (0, w')"
proof -
  let ?w0 = "snd (log_line Banner w)"
  have w0: "disk ?w0 = Document j" using d by (simp add: log_line_def)
  from transform_succeeds[OF cs ty] obtain j' s where t: "transform j = Inr (j', s)" by blast
  obtain r w1 where tb: "try_block ?w0 = (r, w1)" by (cases "try_block ?w0")
  have "\<exists>u. r = Inr u"
  proof (cases r)
    case (Inl e)
    with tb have "try_block ?w0 = (Inl e, w1)" by simp
    from try_block_throws[OF this] w0 t show ?thesis by simp
  qed simp
  with tb show ?thesis by (auto simp: run_script_def)
qed



subsection \<open>Where the script departs from its description\<close>

text \<open>
  Claim C5. The card of the description (no tags, no chapter number, no topic keyword,
  type \<open>application\<close>, difficulty \<open>Advanced\<close>) gets the two tags \<open>application\<close> and
  \<open>advanced\<close> and nothing else. The generic tags are pushed when exactly three tags were
  collected; without a chapter number there are two, so the test \<open>tags.length === 3\<close>
  fails although no topic matched.
\<close>

theorem no_generic_tags_without_chapter:
  "generateDefaultTags
     (JObj [(''id'', JStr ''c1''), (''question'', JStr ''Q''), (''answer'', JStr ''A''),
            (''difficulty'', JStr ''Advanced''), (''type'', JStr ''application''),
            (''tags'', JArr [])])
   = Inr [JStr ''application'', JStr ''advanced'']"
  by code_simp

text \<open>
  Claim C2. A card with no tags whose type and difficulty are empty strings, with no
  chapter number and no topic keyword, collects no tag at all; the test
  \<open>tags.length === 3\<close> fails again, and the run writes the card with an empty \<open>tags\<close>
  array while counting it as a card with tags added.
\<close>

theorem card_left_with_empty_tags:
  "transform
     (JObj [(''data'', JObj [(''mainFlashcards'',
        JArr [JObj [(''id'', JStr ''c1''), (''question'', JStr ''Q''), (''answer'', JStr ''A''),
                    (''difficulty'', JStr ''''), (''type'', JStr ''''), (''tags'', JArr [])]])])])
   = Inr (JObj [(''data'', JObj [(''mainFlashcards'',
        JArr [JObj [(''id'', JStr ''c1''), (''question'', JStr ''Q''), (''answer'', JStr ''A''),
                    (''difficulty'', JStr ''''), (''type'', JStr ''''), (''tags'', JArr [])]])])],
          \<lparr>totalCards = 1, tagsAdded = 1, htmlRemoved = 0, cardsModified = 1\<rparr>)"
  by code_simp

text \<open>
  Claim C4. The first run on the store below gives back the same store, and the second
  run, on the output of the first, again reports one card with tags added and one card
  modified: the card was backfilled with an empty list (same defect as in C2 and C5),
  so it looks untagged to every later run.
\<close>

theorem second_run_reports_changes:
  "\<exists>out1 r1 out2 r2.
     transform
       (JObj [(''data'', JObj [(''mainFlashcards'',
          JArr [JObj [(''id'', JStr ''k7''), (''question'', JStr ''Name it.''),
                      (''answer'', JStr ''Yes''), (''difficulty'', JStr ''''), (''type'', JStr ''''),
                      (''tags'', JArr [])]]),
          (''chapterCollections'', JArr [])])]) = Inr (out1, r1)
     \<and> transform out1 = Inr (out2, r2)
     \<and> out2 = out1 \<and> tagsAdded r2 = 1 \<and> htmlRemoved r2 = 0 \<and> cardsModified r2 = 1"
proof -
  let ?S = "JObj [(''data'', JObj [(''mainFlashcards'',
          JArr [JObj [(''id'', JStr ''k7''), (''question'', JStr ''Name it.''),
                      (''answer'', JStr ''Yes''), (''difficulty'', JStr ''''), (''type'', JStr ''''),
                      (''tags'', JArr [])]]),
          (''chapterCollections'', JArr [])])]"
  let ?R = "\<lparr>totalCards = 1, tagsAdded = 1, htmlRemoved = 0, cardsModified = 1\<rparr>"
  have run: "transform ?S = Inr (?S, ?R)"
    by code_simp
  have "transform ?S = Inr (?S, ?R) \<and> transform ?S = Inr (?S, ?R)
     \<and> ?S = ?S \<and> tagsAdded ?R = 1 \<and> htmlRemoved ?R = 0 \<and> cardsModified ?R = 1"
    using run by simp
  then show ?thesis by (intro exI)
qed

text \<open>
  Claim C7. One card with markup in its question and in its answer makes the summary
  line \<open>Cards with HTML removed\<close> read 2, with 1 card processed and 1 card modified:
  the counter is raised once for each field, not once for each card.
\<close>

theorem markup_counted_per_field:
  "transform
     (JObj [(''data'', JObj [(''mainFlashcards'',
        JArr [JObj [(''id'', JStr ''1''), (''question'', JStr ''<b>Q</b>''),
                    (''answer'', JStr ''<i>A</i>''), (''difficulty'', JStr ''Basic''),
                    (''type'', JStr ''definition''), (''tags'', JArr [JStr ''x''])]])])])
   = Inr (JObj [(''data'', JObj [(''mainFlashcards'',
        JArr [JObj [(''id'', JStr ''1''), (''question'', JStr ''Q''),
                    (''answer'', JStr ''A''), (''difficulty'', JStr ''Basic''),
                    (''type'', JStr ''definition''), (''tags'', JArr [JStr ''x''])]])])],
          \<lparr>totalCards = 1, tagsAdded = 0, htmlRemoved = 2, cardsModified = 1\<rparr>)"
  by code_simp

text \<open>
  Claim C8. A sub-collection without a \<open>flashcards\<close> list is skipped when the cards are
  taken out, but the rebuild reads \<open>collection.flashcards.length\<close> without the guard:
  the run throws, writes nothing and exits with status 1, and the card of the primary
  list, which has markup to remove, is not normalized.
\<close>

theorem collection_without_flashcards_aborts:
  "fixFlashcards (Document
     (JObj [(''data'', JObj [(''mainFlashcards'',
        JArr [JObj [(''id'', JStr ''1''), (''question'', JStr ''<b>Q</b>''), (''answer'', JStr ''A''),
                    (''difficulty'', JStr ''Basic''), (''type'', JStr ''definition''),
                    (''tags'', JArr [JStr ''x''])]]),
        (''chapterCollections'', JArr [JObj [(''title'', JStr ''Chapter 1'')]])])]))
   = Some \<lparr>writes = [], exit_status = 1, printed = None\<rparr>"
  by code_simp

end
